theory Spec2Isabelle
  imports Main "HOL-Library.Word" "HOL-Library.Sublist"
begin

section \<open>Windows runtime types used by GameLoopThreadTests.cpp\<close>

text \<open>
  An \<open>HRESULT\<close> is a signed 32-bit integer; a value is a failure exactly when it is
  negative (the \<open>FAILED\<close> macro). \<open>boolean\<close> is the WinRT one-byte truth value.
\<close>

type_synonym HRESULT = "32 word"

type_synonym boolean = "8 word"

definition S_OK :: HRESULT where
  "S_OK = 0"

definition FAILED :: "HRESULT \<Rightarrow> bool" where
  "FAILED hr = (sint hr < 0)"

text \<open>
  \<open>return true;\<close> in a function whose return type is \<open>HRESULT\<close> converts the C++
  \<open>bool\<close> to the integer 1.
\<close>

definition HRESULT_of_bool :: "bool \<Rightarrow> HRESULT" where
  "HRESULT_of_bool b = (if b then 1 else 0)"

datatype DispatcherQueuePriority =
    DispatcherQueuePriority_Low
  | DispatcherQueuePriority_Normal
  | DispatcherQueuePriority_High

text \<open>
  A dispatcher queue handler is a callback object: its identity and the \<open>HRESULT\<close> its
  \<open>Invoke\<close> returns.
\<close>

datatype IDispatcherQueueHandler = Callback (callback_id: nat) (Invoke: HRESULT)

text \<open>
  A completion handler (\<open>IAsyncActionCompletedHandler\<close>): its identity, and whether its
  body calls back into the action it is handed (reading the action's status).
\<close>

datatype IAsyncActionCompletedHandler =
  CompletedHandler (completed_id: nat) (queries_action: bool)

text \<open>
  Memory for out-parameters: a pointer is an address, a cell holds a \<open>boolean\<close> or is
  uninitialised (\<open>None\<close>), as the local \<open>boolean ignoredResult;\<close> of the fixture is.
\<close>

type_synonym addr = nat

type_synonym memory = "addr \<Rightarrow> boolean option"

section \<open>AnimatedControlAsyncAction (the object behind a unit of work)\<close>

text \<open>
  Modelled from the spec: the class \<open>AnimatedControlAsyncAction\<close> is declared in
  \<open>lib/xaml/GameLoopThread.h\<close>, which is not among the sources. The spec's data model:
  a unit of work wraps one callback, its state is one of Pending, Invoked, Completed,
  Failed, and a completion handler may be registered with it. The lock is the action's
  internal synchronisation (held or not).
\<close>

datatype AsyncStatus = Pending | Invoked | Completed | Failed

record AnimatedControlAsyncAction =
  m_dispatchedHandler :: IDispatcherQueueHandler
  m_status :: AsyncStatus
  m_completed :: "IAsyncActionCompletedHandler option"
  m_lock :: bool

text \<open>\<open>Make<AnimatedControlAsyncAction>(callback)\<close>: a pending unit of work.\<close>

definition Make :: "IDispatcherQueueHandler \<Rightarrow> AnimatedControlAsyncAction" where
  "Make callback =
     \<lparr>m_dispatchedHandler = callback, m_status = Pending, m_completed = None,
      m_lock = False\<rparr>"

section \<open>FakeDispatcher\<close>

text \<open>
  The condition variable as seen by the one thread that ever waits on it (the thread
  inside \<open>RunEventLoop\<close>): nobody waits, the waiter is blocked, or the waiter has been
  notified and will leave \<open>wait\<close> when it next runs.
\<close>

datatype condition_variable = NoWaiter | Blocked | Notified

definition notify_all :: "condition_variable \<Rightarrow> condition_variable" where
  "notify_all cv = (case cv of Blocked \<Rightarrow> Notified | NoWaiter \<Rightarrow> NoWaiter | Notified \<Rightarrow> Notified)"

text \<open>
  The fields of \<open>class FakeDispatcher\<close>. \<open>RunAsyncValidation\<close> is the call counter
  declared by \<open>CALL_COUNTER_WITH_MOCK\<close>: the arguments of its \<open>WasCalled\<close> calls, in
  order. The mutex is not a field of the model: every method body below runs with the
  mutex held from its \<open>Lock\<close> to its end, so it is one atomic transition. (The one
  statement before a \<open>Lock\<close>, the \<open>WasCalled\<close> of line 51, touches the counter only,
  which no other method reads.)
\<close>

record FakeDispatcher =
  m_stopped :: bool
  m_pendingActions :: "AnimatedControlAsyncAction list"
  m_conditionVariable :: condition_variable
  RunAsyncValidation :: "DispatcherQueuePriority list"

definition FakeDispatcher_ctor :: FakeDispatcher where
  "FakeDispatcher_ctor =
     \<lparr>m_stopped = False, m_pendingActions = [], m_conditionVariable = NoWaiter,
      RunAsyncValidation = []\<rparr>"

text \<open>
  \<open>FakeDispatcher::TryEnqueueWithPriority\<close> (lines 46-60): record the priority, wrap
  the callback in a new action, append it to the pending list, notify, \<open>return true\<close>.
  \<open>result\<close> is the out-parameter's address; the body has no assignment through it.
\<close>

definition TryEnqueueWithPriority ::
  "DispatcherQueuePriority \<Rightarrow> IDispatcherQueueHandler \<Rightarrow> addr \<Rightarrow>
   FakeDispatcher \<times> memory \<Rightarrow> HRESULT \<times> FakeDispatcher \<times> memory" where
  "TryEnqueueWithPriority priority agileCallback result = (\<lambda>(this, mem).
     let this1 = this\<lparr>RunAsyncValidation := RunAsyncValidation this @ [priority]\<rparr>;
         action = Make agileCallback;
         this2 = this1\<lparr>m_pendingActions := m_pendingActions this1 @ [action]\<rparr>;
         this3 = this2\<lparr>m_conditionVariable := notify_all (m_conditionVariable this2)\<rparr>
     in (HRESULT_of_bool True, this3, mem))"

text \<open>\<open>FakeDispatcher::EnqueueEventLoopExit\<close> (lines 62-70).\<close>

definition EnqueueEventLoopExit :: "FakeDispatcher \<Rightarrow> HRESULT \<times> FakeDispatcher" where
  "EnqueueEventLoopExit this =
     (let this1 = this\<lparr>m_stopped := True\<rparr>;
          this2 = this1\<lparr>m_conditionVariable := notify_all (m_conditionVariable this1)\<rparr>
      in (S_OK, this2))"

text \<open>
  \<open>FakeDispatcher::RunEventLoop\<close> (lines 72-99) runs on its own thread while other
  threads call the two methods above, so it is modelled by its control points, each
  transition being one stretch of code executed without giving up the mutex:
  \<^item> \<open>NotEntered\<close>: the method has not been called yet;
  \<^item> \<open>Invoking as\<close>: the mutex is released (line 84) and \<open>as\<close> are the actions of the
    swapped batch whose \<open>InvokeAndFireCompletion\<close> is still to be called (lines 85-88);
    \<open>Invoking []\<close> stands before \<open>lock.lock()\<close> (line 89);
  \<^item> \<open>Waiting\<close>: inside \<open>m_conditionVariable.wait(lock)\<close> (line 94);
  \<^item> \<open>Returned\<close>: the method has returned \<open>S_OK\<close> (line 98).
\<close>

datatype RunEventLoop_pc =
    NotEntered
  | Invoking "AnimatedControlAsyncAction list"
  | Waiting
  | Returned

text \<open>
  From the loop test (line 77) with the mutex held, up to the point where the mutex is
  given up: the loop exits when stopped; otherwise the whole pending list is swapped
  out, and the thread either releases the mutex to invoke the batch or, the batch being
  empty, waits.
\<close>

definition RunEventLoop_while :: "FakeDispatcher \<Rightarrow> FakeDispatcher \<times> RunEventLoop_pc" where
  "RunEventLoop_while this =
     (if \<not> m_stopped this then
        let actions = m_pendingActions this;
            this1 = this\<lparr>m_pendingActions := []\<rparr>
        in if actions \<noteq> [] then (this1, Invoking actions)
           else (this1\<lparr>m_conditionVariable := Blocked\<rparr>, Waiting)
      else (this, Returned))"

text \<open>
  The whole system: the dispatcher, the control point of the loop thread, the actions
  whose \<open>InvokeAndFireCompletion\<close> the loop has called so far (in call order), and the
  memory that out-parameters point into.
\<close>

record system =
  dispatcher :: FakeDispatcher
  loop :: RunEventLoop_pc
  invoked :: "AnimatedControlAsyncAction list"
  memory :: memory

definition at_while :: "system \<Rightarrow> system" where
  "at_while s =
     (let (this, pc) = RunEventLoop_while (dispatcher s)
      in s\<lparr>dispatcher := this, loop := pc\<rparr>)"

text \<open>
  One transition of the loop thread. Entering sets \<open>m_stopped = false\<close> (line 75)
  and reaches the loop test; a blocked waiter does not move.
\<close>

definition RunEventLoop_step :: "system \<Rightarrow> system" where
  "RunEventLoop_step s =
     (case loop s of
        NotEntered \<Rightarrow> at_while (s\<lparr>dispatcher := (dispatcher s)\<lparr>m_stopped := False\<rparr>\<rparr>)
      | Invoking [] \<Rightarrow> at_while s
      | Invoking (action # actions) \<Rightarrow>
          s\<lparr>invoked := invoked s @ [action], loop := Invoking actions\<rparr>
      | Waiting \<Rightarrow>
          (if m_conditionVariable (dispatcher s) = Notified
           then at_while (s\<lparr>dispatcher := (dispatcher s)\<lparr>m_conditionVariable := NoWaiter\<rparr>\<rparr>)
           else s)
      | Returned \<Rightarrow> s)"

text \<open>
  \<open>std::condition_variable::wait\<close> without a predicate may also return with no
  notification (a spurious wake-up).
\<close>

definition spurious_wakeup :: "system \<Rightarrow> system" where
  "spurious_wakeup s =
     (case loop s of
        Waiting \<Rightarrow> at_while (s\<lparr>dispatcher := (dispatcher s)\<lparr>m_conditionVariable := NoWaiter\<rparr>\<rparr>)
      | _ \<Rightarrow> s)"

text \<open>
  What can happen next: some thread calls \<open>TryEnqueueWithPriority\<close> or
  \<open>EnqueueEventLoopExit\<close>, the loop thread makes a transition, or the waiter wakes
  spuriously. A schedule is a list of such events; every interleaving of the threads
  at the granularity of the mutex is a schedule.
\<close>

datatype event =
    Call_TryEnqueueWithPriority DispatcherQueuePriority IDispatcherQueueHandler addr
  | Call_EnqueueEventLoopExit
  | LoopThread_step
  | Spurious_wakeup

fun step :: "event \<Rightarrow> system \<Rightarrow> system" where
  "step (Call_TryEnqueueWithPriority priority handler result) s =
     (let (hr, this, mem) = TryEnqueueWithPriority priority handler result (dispatcher s, memory s)
      in s\<lparr>dispatcher := this, memory := mem\<rparr>)"
| "step Call_EnqueueEventLoopExit s =
     (let (hr, this) = EnqueueEventLoopExit (dispatcher s) in s\<lparr>dispatcher := this\<rparr>)"
| "step LoopThread_step s = RunEventLoop_step s"
| "step Spurious_wakeup s = spurious_wakeup s"

definition run :: "event list \<Rightarrow> system \<Rightarrow> system" where
  "run evs s = fold step evs s"

text \<open>A freshly constructed dispatcher whose \<open>RunEventLoop\<close> has not been called.\<close>

definition initial_system :: "memory \<Rightarrow> system" where
  "initial_system mem =
     \<lparr>dispatcher = FakeDispatcher_ctor, loop = NotEntered, invoked = [], memory = mem\<rparr>"

text \<open>The actions a schedule enqueues, with their priorities, in call order.\<close>

fun enqueued :: "event list \<Rightarrow> (DispatcherQueuePriority \<times> AnimatedControlAsyncAction) list" where
  "enqueued [] = []"
| "enqueued (Call_TryEnqueueWithPriority priority handler result # evs) =
     (priority, Make handler) # enqueued evs"
| "enqueued (ev # evs) = enqueued evs"

text \<open>The actions of the batch the loop thread has swapped out and not yet invoked.\<close>

fun in_flight :: "RunEventLoop_pc \<Rightarrow> AnimatedControlAsyncAction list" where
  "in_flight (Invoking actions) = actions"
| "in_flight pc = []"

text \<open>
  Every action the system has taken in, in the order it is or will be invoked: those
  already invoked, the rest of the batch in flight, the pending list.
\<close>

definition accounted :: "system \<Rightarrow> AnimatedControlAsyncAction list" where
  "accounted s = invoked s @ in_flight (loop s) @ m_pendingActions (dispatcher s)"

text \<open>
  The states schedules reach from a new dispatcher: the loop thread is the waiter
  exactly when it is at \<open>wait\<close>; a blocked waiter has seen neither work nor a stop
  request since it swapped the pending list; the loop returns only when stopped.
\<close>

definition wf_system :: "system \<Rightarrow> bool" where
  "wf_system s =
     ((loop s = Waiting) = (m_conditionVariable (dispatcher s) \<noteq> NoWaiter) \<and>
      (m_conditionVariable (dispatcher s) = Blocked \<longrightarrow>
         m_pendingActions (dispatcher s) = [] \<and> \<not> m_stopped (dispatcher s)) \<and>
      (loop s = Returned \<longrightarrow> m_stopped (dispatcher s)) \<and>
      (loop s = NotEntered \<longrightarrow> invoked s = []))"

text \<open>
  A stop request has been made while the loop thread is inside \<open>RunEventLoop\<close> and
  has not been lost: a waiter has been notified of it.
\<close>

definition stopping :: "system \<Rightarrow> bool" where
  "stopping s = (m_stopped (dispatcher s) \<and> loop s \<noteq> NotEntered \<and>
      (loop s = Waiting \<longrightarrow> m_conditionVariable (dispatcher s) = Notified))"

text \<open>The number of transitions the loop thread takes in a schedule.\<close>

fun loop_steps :: "event list \<Rightarrow> nat" where
  "loop_steps [] = 0"
| "loop_steps (LoopThread_step # evs) = Suc (loop_steps evs)"
| "loop_steps (ev # evs) = loop_steps evs"

text \<open>The actions enqueued at one priority, in call order.\<close>

definition with_priority ::
  "DispatcherQueuePriority \<Rightarrow> (DispatcherQueuePriority \<times> AnimatedControlAsyncAction) list \<Rightarrow>
   AnimatedControlAsyncAction list" where
  "with_priority p xs = map snd (filter (\<lambda>x. fst x = p) xs)"

text \<open>
  Transitions of the loop thread that suffice to invoke everything the dispatcher has
  taken in: the rest of the batch, the way back to the loop test, the pending list.
\<close>

definition drain_steps :: "system \<Rightarrow> nat" where
  "drain_steps s = length (in_flight (loop s)) + 1 + length (m_pendingActions (dispatcher s))"

section \<open>Completion of a unit of work\<close>

text \<open>
  Modelled from the spec: the methods of \<open>AnimatedControlAsyncAction\<close> are not among
  the sources. The spec: the callback is invoked at most once and completion is
  signalled at most once (a state check, not the caller's discipline); the action's
  state is guarded by a lock; no lock is held while the wrapped callback or the
  completion handler is invoked; registering a completion handler checks the state
  under the lock and either stores the handler or invokes it immediately outside the
  lock; a failure of the callback becomes the status Failed.

  Taking the lock while it is held is the recursive-lock deadlock the spec speaks of;
  it is the error value of every operation.
\<close>

datatype error = Deadlock

text \<open>What the outside world sees of an action: calls of the callback and of handlers.\<close>

datatype notification =
    CallbackInvoked IDispatcherQueueHandler
  | CompletionDelivered IAsyncActionCompletedHandler AsyncStatus

definition acquire :: "AnimatedControlAsyncAction \<Rightarrow> error + AnimatedControlAsyncAction" where
  "acquire a = (if m_lock a then Inl Deadlock else Inr (a\<lparr>m_lock := True\<rparr>))"

definition release :: "AnimatedControlAsyncAction \<Rightarrow> AnimatedControlAsyncAction" where
  "release a = a\<lparr>m_lock := False\<rparr>"

definition get_Status ::
  "AnimatedControlAsyncAction \<Rightarrow> error + AsyncStatus \<times> AnimatedControlAsyncAction" where
  "get_Status a =
     (case acquire a of Inl e \<Rightarrow> Inl e | Inr a1 \<Rightarrow> Inr (m_status a1, release a1))"

text \<open>
  Calling a completion handler with the action and its status. A handler whose body
  reads the action's status takes the action's lock while it runs.
\<close>

definition Invoke_completed ::
  "IAsyncActionCompletedHandler \<Rightarrow> AsyncStatus \<Rightarrow>
   AnimatedControlAsyncAction \<times> notification list \<Rightarrow>
   error + AnimatedControlAsyncAction \<times> notification list" where
  "Invoke_completed h st = (\<lambda>(a, log).
     if queries_action h then
       (case get_Status a of
          Inl e \<Rightarrow> Inl e
        | Inr (seen, a1) \<Rightarrow> Inr (a1, log @ [CompletionDelivered h st]))
     else Inr (a, log @ [CompletionDelivered h st]))"

definition final_status :: "IDispatcherQueueHandler \<Rightarrow> AsyncStatus" where
  "final_status callback = (if FAILED (Invoke callback) then Failed else Completed)"

text \<open>
  Signalling completion: under the lock the final status is recorded and the stored
  handler, if any, is read; the handler is then called with the lock released.
\<close>

definition FireCompletion ::
  "AsyncStatus \<Rightarrow> AnimatedControlAsyncAction \<times> notification list \<Rightarrow>
   error + AnimatedControlAsyncAction \<times> notification list" where
  "FireCompletion st = (\<lambda>(a, log).
     (case acquire a of
        Inl e \<Rightarrow> Inl e
      | Inr a1 \<Rightarrow>
          (let a2 = a1\<lparr>m_status := st\<rparr>;
               registered = m_completed a2;
               a3 = release a2
           in (case registered of
                 None \<Rightarrow> Inr (a3, log)
               | Some h \<Rightarrow> Invoke_completed h st (a3, log)))))"

text \<open>
  Under the lock the state is checked and moved from Pending to Invoked, so that a
  second call does nothing; the callback runs with the lock released; then completion
  is signalled.
\<close>

definition InvokeAndFireCompletion ::
  "AnimatedControlAsyncAction \<times> notification list \<Rightarrow>
   error + AnimatedControlAsyncAction \<times> notification list" where
  "InvokeAndFireCompletion = (\<lambda>(a, log).
     (case acquire a of
        Inl e \<Rightarrow> Inl e
      | Inr a1 \<Rightarrow>
          (if m_status a1 \<noteq> Pending then Inr (release a1, log)
           else
             (let a2 = release (a1\<lparr>m_status := Invoked\<rparr>);
                  log1 = log @ [CallbackInvoked (m_dispatchedHandler a2)]
              in FireCompletion (final_status (m_dispatchedHandler a2)) (a2, log1)))))"

definition put_Completed ::
  "IAsyncActionCompletedHandler \<Rightarrow> AnimatedControlAsyncAction \<times> notification list \<Rightarrow>
   error + AnimatedControlAsyncAction \<times> notification list" where
  "put_Completed h = (\<lambda>(a, log).
     (case acquire a of
        Inl e \<Rightarrow> Inl e
      | Inr a1 \<Rightarrow>
          (if m_status a1 = Completed \<or> m_status a1 = Failed
           then Invoke_completed h (m_status a1) (release a1, log)
           else Inr (release (a1\<lparr>m_completed := Some h\<rparr>), log))))"

text \<open>
  The two things that can be done to an action, and a history of them in any order.
\<close>

datatype action_op = Op_InvokeAndFireCompletion | Op_put_Completed IAsyncActionCompletedHandler

fun action_step ::
  "action_op \<Rightarrow> AnimatedControlAsyncAction \<times> notification list \<Rightarrow>
   error + AnimatedControlAsyncAction \<times> notification list" where
  "action_step Op_InvokeAndFireCompletion s = InvokeAndFireCompletion s"
| "action_step (Op_put_Completed h) s = put_Completed h s"

fun action_run ::
  "action_op list \<Rightarrow> error + AnimatedControlAsyncAction \<times> notification list \<Rightarrow>
   error + AnimatedControlAsyncAction \<times> notification list" where
  "action_run [] r = r"
| "action_run (x # xs) r =
     (case r of Inl e \<Rightarrow> Inl e | Inr s \<Rightarrow> action_run xs (action_step x s))"

fun registrations :: "action_op list \<Rightarrow> IAsyncActionCompletedHandler list" where
  "registrations [] = []"
| "registrations (Op_put_Completed h # xs) = h # registrations xs"
| "registrations (Op_InvokeAndFireCompletion # xs) = registrations xs"

fun deliveries :: "notification list \<Rightarrow> (IAsyncActionCompletedHandler \<times> AsyncStatus) list" where
  "deliveries [] = []"
| "deliveries (CompletionDelivered h st # xs) = (h, st) # deliveries xs"
| "deliveries (CallbackInvoked c # xs) = deliveries xs"

fun invocations :: "notification list \<Rightarrow> IDispatcherQueueHandler list" where
  "invocations [] = []"
| "invocations (CallbackInvoked c # xs) = c # invocations xs"
| "invocations (CompletionDelivered h st # xs) = invocations xs"

text \<open>
  What holds of an action after a history with at most one registration: the callback
  has run exactly when the history has an invocation, and the registered handler has
  been called exactly when the history has both.
\<close>

definition action_inv ::
  "IDispatcherQueueHandler \<Rightarrow> action_op list \<Rightarrow>
   AnimatedControlAsyncAction \<times> notification list \<Rightarrow> bool" where
  "action_inv callback ops = (\<lambda>(a, log).
     \<not> m_lock a \<and> m_dispatchedHandler a = callback \<and>
     (if Op_InvokeAndFireCompletion \<in> set ops
      then m_status a = final_status callback \<and> invocations log = [callback]
      else m_status a = Pending \<and> invocations log = []) \<and>
     (case registrations ops of
        [] \<Rightarrow> m_completed a = None \<and> deliveries log = []
      | h # hs \<Rightarrow>
          if Op_InvokeAndFireCompletion \<in> set ops
          then deliveries log = [(h, final_status callback)]
          else m_completed a = Some h \<and> deliveries log = []))"

text \<open>
  \<open>MockGameLoopThread::RunAsync\<close> of the regression test (lines 356-365): the first
  call completes the action before returning it, later calls return it pending.
\<close>

record MockGameLoopThread =
  m_first :: bool

definition MockGameLoopThread_ctor :: MockGameLoopThread where
  "MockGameLoopThread_ctor = \<lparr>m_first = True\<rparr>"

definition MockGameLoopThread_RunAsync ::
  "IDispatcherQueueHandler \<Rightarrow> MockGameLoopThread \<times> notification list \<Rightarrow>
   error + AnimatedControlAsyncAction \<times> MockGameLoopThread \<times> notification list" where
  "MockGameLoopThread_RunAsync handler = (\<lambda>(this, log).
     let action = Make handler
     in if m_first this then
          (case InvokeAndFireCompletion (action, log) of
             Inl e \<Rightarrow> Inl e
           | Inr (action1, log1) \<Rightarrow> Inr (action1, this\<lparr>m_first := False\<rparr>, log1))
        else Inr (action, this, log))"

section \<open>The game loop thread over the dispatcher\<close>

text \<open>
  \<open>struct MockGameLoopClient\<close> (lines 102-125): the two call counters and the
  methods that bump them.
\<close>

record MockGameLoopClient =
  GameLoopStarting :: nat
  GameLoopStopped :: nat

definition OnGameLoopStarting :: "MockGameLoopClient \<Rightarrow> MockGameLoopClient" where
  "OnGameLoopStarting c = c\<lparr>GameLoopStarting := Suc (GameLoopStarting c)\<rparr>"

definition OnGameLoopStopped :: "MockGameLoopClient \<Rightarrow> MockGameLoopClient" where
  "OnGameLoopStopped c = c\<lparr>GameLoopStopped := Suc (GameLoopStopped c)\<rparr>"

text \<open>
  Modelled from the spec: the class behind \<open>IGameLoopThread\<close> (created by
  \<open>CreateGameLoopThread\<close>) is not among the sources. The spec: the thread goes from
  Constructed to Running on \<open>StartDispatcher\<close> (idempotent while running) and from
  Running to Stopped on \<open>StopDispatcher\<close>, which blocks until the event loop has
  exited; the state only moves forward; \<open>RunAsync\<close> is valid in any state, returns at
  once and enqueues the handler at Low priority; destruction while running implicitly
  stops and waits, and delivers \<open>OnGameLoopStopped\<close> before it returns. The dispatcher
  and its loop thread are the \<open>system\<close> above. The object also carries the history of
  what the loop thread did and of the client's stop notification, in the order in which
  they happened.
\<close>

text \<open>
  What else construction does before it returns (the auxiliary input source of the
  panel, the client's start notification) is outside this model.
\<close>

datatype GameLoopThread_phase = Constructed | Running | Stopped

text \<open>
  What is seen of the loop thread and of the notification: the loop thread enters
  \<open>RunEventLoop\<close>, calls \<open>InvokeAndFireCompletion\<close> on an action, returns from
  \<open>RunEventLoop\<close>; the client's \<open>OnGameLoopStopped\<close> is called.
\<close>

datatype lifecycle_event =
    Loop_entered
  | Handler_invoked AnimatedControlAsyncAction
  | Loop_returned
  | GameLoopStopped_notified

text \<open>What one transition of the system, from \<open>s\<close> to \<open>s'\<close>, adds to the history.\<close>

definition observe :: "system \<Rightarrow> system \<Rightarrow> lifecycle_event list" where
  "observe s s' =
     (if loop s = NotEntered \<and> loop s' \<noteq> NotEntered then [Loop_entered] else []) @
     map Handler_invoked (drop (length (invoked s)) (invoked s')) @
     (if loop s \<noteq> Returned \<and> loop s' = Returned then [Loop_returned] else [])"

text \<open>What a schedule adds to the history, transition by transition.\<close>

fun trace_of :: "event list \<Rightarrow> system \<Rightarrow> lifecycle_event list" where
  "trace_of [] s = []"
| "trace_of (ev # evs) s = observe s (step ev s) @ trace_of evs (step ev s)"

record GameLoopThread =
  m_system :: system
  m_phase :: GameLoopThread_phase
  m_client :: MockGameLoopClient
  m_trace :: "lifecycle_event list"

definition CreateGameLoopThread :: "memory \<Rightarrow> MockGameLoopClient \<Rightarrow> GameLoopThread" where
  "CreateGameLoopThread mem client =
     \<lparr>m_system = initial_system mem, m_phase = Constructed, m_client = client,
      m_trace = []\<rparr>"

text \<open>Starting lets the loop thread enter \<open>RunEventLoop\<close>.\<close>

definition StartDispatcher :: "GameLoopThread \<Rightarrow> GameLoopThread" where
  "StartDispatcher t =
     (if m_phase t = Constructed
      then t\<lparr>m_system := step LoopThread_step (m_system t), m_phase := Running,
             m_trace := m_trace t @ trace_of [LoopThread_step] (m_system t)\<rparr>
      else t)"

text \<open>
  Blocking until the event loop has exited: the caller does nothing while the loop
  thread takes its transitions, one per action still in flight and one more to reach
  the loop test.
\<close>

definition wait_for_exit_steps :: "system \<Rightarrow> event list" where
  "wait_for_exit_steps s = replicate (Suc (length (in_flight (loop s)))) LoopThread_step"

definition wait_for_exit :: "system \<Rightarrow> system" where
  "wait_for_exit s = run (wait_for_exit_steps s) s"

text \<open>
  Stopping a running thread: the exit request, then the wait. The history grows by
  what the request and the loop thread's transitions during the wait show.
\<close>

definition StopDispatcher :: "GameLoopThread \<Rightarrow> GameLoopThread" where
  "StopDispatcher t =
     (if m_phase t = Running
      then
        (let s1 = step Call_EnqueueEventLoopExit (m_system t)
         in t\<lparr>m_system := wait_for_exit s1,
               m_phase := Stopped,
               m_trace := m_trace t @ observe (m_system t) s1 @
                            trace_of (wait_for_exit_steps s1) s1\<rparr>)
      else t)"

definition RunAsync :: "IDispatcherQueueHandler \<Rightarrow> addr \<Rightarrow> GameLoopThread \<Rightarrow> GameLoopThread" where
  "RunAsync handler result t =
     t\<lparr>m_system :=
         step (Call_TryEnqueueWithPriority DispatcherQueuePriority_Low handler result) (m_system t)\<rparr>"

text \<open>
  Delivering the stop notification: the client's \<open>OnGameLoopStopped\<close> is called, and
  the call enters the history at that moment.
\<close>

definition notify_stopped :: "GameLoopThread \<Rightarrow> GameLoopThread" where
  "notify_stopped t =
     t\<lparr>m_client := OnGameLoopStopped (m_client t),
       m_trace := m_trace t @ [GameLoopStopped_notified]\<rparr>"

text \<open>Destruction: the implicit stop and wait first, then the notification.\<close>

definition Destroy :: "GameLoopThread \<Rightarrow> GameLoopThread" where
  "Destroy t = notify_stopped (StopDispatcher t)"

text \<open>
  What can happen to a live thread object: its owner calls one of its methods, or
  something happens at the dispatcher (a direct call by another party, a transition of
  the loop thread). The loop thread is inside \<open>RunEventLoop\<close> only while Running.
\<close>

datatype call =
    Call_StartDispatcher
  | Call_StopDispatcher
  | Call_RunAsync IDispatcherQueueHandler addr
  | Dispatcher_event event

fun is_loop_event :: "event \<Rightarrow> bool" where
  "is_loop_event LoopThread_step = True"
| "is_loop_event Spurious_wakeup = True"
| "is_loop_event ev = False"

fun thread_step :: "call \<Rightarrow> GameLoopThread \<Rightarrow> GameLoopThread" where
  "thread_step Call_StartDispatcher t = StartDispatcher t"
| "thread_step Call_StopDispatcher t = StopDispatcher t"
| "thread_step (Call_RunAsync handler result) t = RunAsync handler result t"
| "thread_step (Dispatcher_event ev) t =
     (if is_loop_event ev \<and> m_phase t \<noteq> Running then t
      else t\<lparr>m_system := step ev (m_system t),
             m_trace := m_trace t @ observe (m_system t) (step ev (m_system t))\<rparr>)"

definition thread_run :: "call list \<Rightarrow> GameLoopThread \<Rightarrow> GameLoopThread" where
  "thread_run cs t = fold thread_step cs t"

fun is_direct_enqueue :: "call \<Rightarrow> bool" where
  "is_direct_enqueue (Dispatcher_event (Call_TryEnqueueWithPriority priority handler result)) = True"
| "is_direct_enqueue c = False"

fun is_RunAsync :: "call \<Rightarrow> bool" where
  "is_RunAsync (Call_RunAsync handler result) = True"
| "is_RunAsync c = False"

text \<open>
  The actions a history of the thread object puts on the dispatcher, with their
  priorities, in call order: those of \<open>RunAsync\<close> and those enqueued directly.
\<close>

fun thread_enqueued ::
  "call list \<Rightarrow> (DispatcherQueuePriority \<times> AnimatedControlAsyncAction) list" where
  "thread_enqueued [] = []"
| "thread_enqueued (Call_RunAsync handler result # cs) =
     (DispatcherQueuePriority_Low, Make handler) # thread_enqueued cs"
| "thread_enqueued (Dispatcher_event ev # cs) = enqueued [ev] @ thread_enqueued cs"
| "thread_enqueued (c # cs) = thread_enqueued cs"

text \<open>
  A history and the state it belongs to: the return of the loop is recorded exactly
  when the loop has returned, and then it is the last entry and the only one of its
  kind.
\<close>

definition returned_last :: "lifecycle_event list \<Rightarrow> system \<Rightarrow> bool" where
  "returned_last tr s =
     (if loop s = Returned
      then tr \<noteq> [] \<and> last tr = Loop_returned \<and> Loop_returned \<notin> set (butlast tr)
      else Loop_returned \<notin> set tr)"

text \<open>The history of a live thread object.\<close>

definition trace_inv :: "GameLoopThread \<Rightarrow> bool" where
  "trace_inv t =
     (GameLoopStopped_notified \<notin> set (m_trace t) \<and>
      returned_last (m_trace t) (m_system t) \<and>
      (if m_phase t = Constructed then m_trace t = []
       else Loop_entered \<in> set (m_trace t)))"

text \<open>Where the loop thread stands in each state of the game loop thread.\<close>

definition thread_inv :: "GameLoopThread \<Rightarrow> bool" where
  "thread_inv t =
     (wf_system (m_system t) \<and>
      (case m_phase t of
         Constructed \<Rightarrow> loop (m_system t) = NotEntered
       | Running \<Rightarrow> loop (m_system t) \<noteq> NotEntered
       | Stopped \<Rightarrow> loop (m_system t) = Returned))"

section \<open>Schedules of the dispatcher\<close>

lemma TryEnqueueWithPriority_simps:
  "TryEnqueueWithPriority priority handler result (this, mem) =
     (1, this\<lparr>RunAsyncValidation := RunAsyncValidation this @ [priority],
              m_pendingActions := m_pendingActions this @ [Make handler],
              m_conditionVariable := notify_all (m_conditionVariable this)\<rparr>, mem)"
  by (simp add: TryEnqueueWithPriority_def HRESULT_of_bool_def Let_def)

lemma EnqueueEventLoopExit_simps:
  "EnqueueEventLoopExit this =
     (S_OK, this\<lparr>m_stopped := True,
                 m_conditionVariable := notify_all (m_conditionVariable this)\<rparr>)"
  by (simp add: EnqueueEventLoopExit_def Let_def)

lemmas step_defs =
  TryEnqueueWithPriority_simps EnqueueEventLoopExit_simps RunEventLoop_step_def
  spurious_wakeup_def at_while_def RunEventLoop_while_def Let_def

lemma run_Nil: "run [] s = s"
  by (simp add: run_def)

lemma run_Cons: "run (ev # evs) s = run evs (step ev s)"
  by (simp add: run_def)

lemma run_append: "run (xs @ ys) s = run ys (run xs s)"
  by (simp add: run_def)

lemma enqueued_append: "enqueued (xs @ ys) = enqueued xs @ enqueued ys"
  by (induction xs rule: enqueued.induct) simp_all

lemma enqueued_Cons: "enqueued (ev # evs) = enqueued [ev] @ enqueued evs"
  using enqueued_append [of "[ev]" evs] by simp

lemma wf_initial: "wf_system (initial_system mem)"
  by (simp add: wf_system_def initial_system_def FakeDispatcher_ctor_def)

lemma wf_step: "wf_system s \<Longrightarrow> wf_system (step ev s)"
  by (cases ev)
    (auto simp: wf_system_def step_defs notify_all_def
      split: RunEventLoop_pc.splits list.splits condition_variable.splits if_splits)

lemma wf_run: "wf_system s \<Longrightarrow> wf_system (run evs s)"
  by (induction evs arbitrary: s) (simp_all add: run_Nil run_Cons wf_step)

lemma accounted_step: "accounted (step ev s) = accounted s @ map snd (enqueued [ev])"
  by (cases ev)
    (auto simp: accounted_def step_defs split: RunEventLoop_pc.splits list.splits if_splits)

lemma accounted_run: "accounted (run evs s) = accounted s @ map snd (enqueued evs)"
proof (induction evs arbitrary: s)
  case Nil
  show ?case by (simp add: run_Nil)
next
  case (Cons ev evs)
  show ?case
    using enqueued_Cons [of ev evs] by (simp add: run_Cons Cons.IH accounted_step)
qed

lemma validation_step:
  "RunAsyncValidation (dispatcher (step ev s)) =
     RunAsyncValidation (dispatcher s) @ map fst (enqueued [ev])"
  by (cases ev)
    (auto simp: step_defs split: RunEventLoop_pc.splits list.splits if_splits)

lemma validation_run:
  "RunAsyncValidation (dispatcher (run evs s)) =
     RunAsyncValidation (dispatcher s) @ map fst (enqueued evs)"
proof (induction evs arbitrary: s)
  case Nil
  show ?case by (simp add: run_Nil)
next
  case (Cons ev evs)
  show ?case
    using enqueued_Cons [of ev evs] by (simp add: run_Cons Cons.IH validation_step)
qed

lemma initial_accounted: "accounted (initial_system mem) = []"
  by (simp add: accounted_def initial_system_def FakeDispatcher_ctor_def)

lemma stopped_has_request:
  "loop (run evs (initial_system mem)) \<noteq> NotEntered \<Longrightarrow>
   m_stopped (dispatcher (run evs (initial_system mem))) \<Longrightarrow>
   \<exists>pre post. evs = pre @ Call_EnqueueEventLoopExit # post \<and>
     loop (run pre (initial_system mem)) \<noteq> NotEntered"
proof (induction evs rule: rev_induct)
  case Nil
  then show ?case by (simp add: run_Nil initial_system_def)
next
  case (snoc ev evs)
  let ?s = "run evs (initial_system mem)"
  have r: "run (evs @ [ev]) (initial_system mem) = step ev ?s"
    by (simp add: run_append run_Cons run_Nil)
  show ?case
  proof (cases "ev = Call_EnqueueEventLoopExit \<and> loop ?s \<noteq> NotEntered")
    case True
    then have "evs @ [ev] = evs @ Call_EnqueueEventLoopExit # [] \<and> loop ?s \<noteq> NotEntered"
      by simp
    then show ?thesis by blast
  next
    case False
    have "loop ?s \<noteq> NotEntered \<and> m_stopped (dispatcher ?s)"
      using snoc.prems False unfolding r
      by (cases ev)
        (auto simp: step_defs split: RunEventLoop_pc.splits list.splits if_splits)
    then obtain pre post where "evs = pre @ Call_EnqueueEventLoopExit # post"
      "loop (run pre (initial_system mem)) \<noteq> NotEntered"
      using snoc.IH by blast
    then have "evs @ [ev] = pre @ Call_EnqueueEventLoopExit # (post @ [ev]) \<and>
      loop (run pre (initial_system mem)) \<noteq> NotEntered" by simp
    then show ?thesis by blast
  qed
qed

lemma returned_has_request:
  assumes "loop (run evs (initial_system mem)) = Returned"
  shows "\<exists>pre post. evs = pre @ Call_EnqueueEventLoopExit # post \<and>
     loop (run pre (initial_system mem)) \<noteq> NotEntered"
proof -
  have "wf_system (run evs (initial_system mem))"
    by (rule wf_run [OF wf_initial])
  with assms have "m_stopped (dispatcher (run evs (initial_system mem)))"
    by (simp add: wf_system_def)
  with assms show ?thesis
    using stopped_has_request [of evs mem] by simp
qed

lemma stopping_step: "stopping s \<Longrightarrow> stopping (step ev s)"
  by (cases ev)
    (auto simp: stopping_def step_defs notify_all_def
      split: RunEventLoop_pc.splits list.splits condition_variable.splits if_splits)

lemma stopping_loop_step:
  "stopping s \<Longrightarrow>
     (case loop s of
        Invoking (a # as) \<Rightarrow> step LoopThread_step s = s\<lparr>invoked := invoked s @ [a], loop := Invoking as\<rparr>
      | Returned \<Rightarrow> step LoopThread_step s = s
      | _ \<Rightarrow> loop (step LoopThread_step s) = Returned \<and> invoked (step LoopThread_step s) = invoked s)"
  by (auto simp: stopping_def step_defs split: RunEventLoop_pc.splits list.splits)

lemma stopping_prefix_step:
  "stopping s \<Longrightarrow>
   prefix (invoked (step ev s) @ in_flight (loop (step ev s))) (invoked s @ in_flight (loop s))"
  by (cases ev)
    (auto simp: stopping_def step_defs split: RunEventLoop_pc.splits list.splits if_splits)

lemma stopping_prefix_run:
  "stopping s \<Longrightarrow>
   prefix (invoked (run evs s) @ in_flight (loop (run evs s))) (invoked s @ in_flight (loop s))"
proof (induction evs arbitrary: s)
  case Nil
  show ?case by (simp add: run_Nil)
next
  case (Cons ev evs)
  have "prefix (invoked (run evs (step ev s)) @ in_flight (loop (run evs (step ev s))))
          (invoked (step ev s) @ in_flight (loop (step ev s)))"
    using Cons.IH [OF stopping_step [OF Cons.prems]] .
  also have "prefix ... (invoked s @ in_flight (loop s))"
    using stopping_prefix_step [OF Cons.prems] .
  finally show ?case by (simp add: run_Cons)
qed

lemma stopping_in_flight_step:
  "stopping s \<Longrightarrow> length (in_flight (loop (step ev s))) \<le> length (in_flight (loop s))"
  by (cases ev)
    (auto simp: stopping_def step_defs split: RunEventLoop_pc.splits list.splits if_splits)

lemma stopping_returned_step:
  "stopping s \<Longrightarrow> loop s = Returned \<Longrightarrow> loop (step ev s) = Returned"
  by (cases ev)
    (auto simp: stopping_def step_defs split: RunEventLoop_pc.splits list.splits if_splits)

lemma stopping_returned_run:
  "stopping s \<Longrightarrow> loop s = Returned \<Longrightarrow> loop (run evs s) = Returned"
  by (induction evs arbitrary: s)
    (simp_all add: run_Nil run_Cons stopping_step stopping_returned_step)

lemma stopping_exits:
  "stopping s \<Longrightarrow> length (in_flight (loop s)) < loop_steps evs \<Longrightarrow>
   loop (run evs s) = Returned"
proof (induction evs arbitrary: s)
  case Nil
  then show ?case by simp
next
  case (Cons ev evs)
  note st = stopping_step [OF Cons.prems(1), of ev]
  show ?case
  proof (cases "ev = LoopThread_step")
    case False
    then have "loop_steps (ev # evs) = loop_steps evs" by (cases ev) simp_all
    with Cons.prems(2) stopping_in_flight_step [OF Cons.prems(1), of ev]
    have "length (in_flight (loop (step ev s))) < loop_steps evs" by simp
    from Cons.IH [OF st this] show ?thesis by (simp add: run_Cons)
  next
    case True
    show ?thesis
    proof (cases "loop s")
      case (Invoking as)
      show ?thesis
      proof (cases as)
        case Nil
        with Invoking Cons.prems(1) have "loop (step ev s) = Returned"
          using stopping_loop_step [of s] True by simp
        then show ?thesis using stopping_returned_run [OF st] by (simp add: run_Cons)
      next
        case (Cons a as')
        with Invoking Cons.prems(1) True
        have "loop (step ev s) = Invoking as'"
          using stopping_loop_step [of s] by simp
        with Cons Invoking True \<open>length (in_flight (loop s)) < loop_steps (ev # evs)\<close>
        have "length (in_flight (loop (step ev s))) < loop_steps evs" by simp
        from Cons.IH [OF st this] show ?thesis by (simp add: run_Cons)
      qed
    next
      case NotEntered
      with Cons.prems(1) show ?thesis by (simp add: stopping_def)
    next
      case Waiting
      with Cons.prems(1) True have "loop (step ev s) = Returned"
        using stopping_loop_step [of s] by simp
      then show ?thesis using stopping_returned_run [OF st] by (simp add: run_Cons)
    next
      case Returned
      with Cons.prems(1) have "loop (step ev s) = Returned"
        using stopping_returned_step [of s ev] by simp
      then show ?thesis using stopping_returned_run [OF st] by (simp add: run_Cons)
    qed
  qed
qed

lemma stopping_after_request:
  "wf_system s \<Longrightarrow> loop s \<noteq> NotEntered \<Longrightarrow> stopping (step Call_EnqueueEventLoopExit s)"
  by (auto simp: stopping_def wf_system_def step_defs notify_all_def
      split: condition_variable.splits)


lemma running_step:
  "\<not> m_stopped (dispatcher s) \<Longrightarrow> loop s \<noteq> NotEntered \<Longrightarrow> loop s \<noteq> Returned \<Longrightarrow>
   ev \<noteq> Call_EnqueueEventLoopExit \<Longrightarrow>
   \<not> m_stopped (dispatcher (step ev s)) \<and> loop (step ev s) \<noteq> NotEntered \<and>
   loop (step ev s) \<noteq> Returned"
  by (cases ev)
    (auto simp: step_defs split: RunEventLoop_pc.splits list.splits if_splits)

lemma running_run:
  "\<not> m_stopped (dispatcher s) \<Longrightarrow> loop s \<noteq> NotEntered \<Longrightarrow> loop s \<noteq> Returned \<Longrightarrow>
   Call_EnqueueEventLoopExit \<notin> set evs \<Longrightarrow>
   \<not> m_stopped (dispatcher (run evs s)) \<and> loop (run evs s) \<noteq> NotEntered \<and>
   loop (run evs s) \<noteq> Returned"
proof (induction evs arbitrary: s)
  case Nil
  then show ?case by (simp add: run_Nil)
next
  case (Cons ev evs)
  have "ev \<noteq> Call_EnqueueEventLoopExit" "Call_EnqueueEventLoopExit \<notin> set evs"
    using Cons.prems(4) by auto
  with running_step [OF Cons.prems(1-3), of ev] Cons.IH [of "step ev s"]
  show ?case by (simp add: run_Cons)
qed

lemma entry_running:
  "loop s = NotEntered \<Longrightarrow>
   \<not> m_stopped (dispatcher (step LoopThread_step s)) \<and>
   loop (step LoopThread_step s) \<noteq> NotEntered \<and> loop (step LoopThread_step s) \<noteq> Returned"
  by (auto simp: step_defs)

lemma request_keeps_loop:
  "loop (step Call_EnqueueEventLoopExit s) = loop s \<and>
   m_stopped (dispatcher (step Call_EnqueueEventLoopExit s))"
  by (simp add: step_defs)

lemma invoke_batch:
  "loop s = Invoking B \<Longrightarrow>
   run (replicate (length B) LoopThread_step) s = s\<lparr>invoked := invoked s @ B, loop := Invoking []\<rparr>"
proof (induction B arbitrary: s)
  case Nil
  then show ?case by (simp add: run_Nil)
next
  case (Cons a B)
  let ?s1 = "s\<lparr>invoked := invoked s @ [a], loop := Invoking B\<rparr>"
  have s1: "RunEventLoop_step s = ?s1"
    using Cons.prems by (simp add: step_defs)
  have "loop ?s1 = Invoking B" by simp
  from Cons.IH [OF this] show ?case
    by (simp add: run_Cons s1)
qed

lemma drain_at_while:
  "\<not> m_stopped (dispatcher s) \<Longrightarrow> in_flight (loop s) = [] \<Longrightarrow>
   invoked (run (replicate (length (m_pendingActions (dispatcher s))) LoopThread_step) (at_while s))
     = invoked s @ m_pendingActions (dispatcher s)"
proof (cases "m_pendingActions (dispatcher s) = []")
  case True
  assume "\<not> m_stopped (dispatcher s)"
  with True show ?thesis by (simp add: run_Nil step_defs)
next
  case False
  assume ns: "\<not> m_stopped (dispatcher s)"
  let ?P = "m_pendingActions (dispatcher s)"
  have l: "loop (at_while s) = Invoking ?P" and i: "invoked (at_while s) = invoked s"
    using False ns by (simp_all add: step_defs)
  show ?thesis using invoke_batch [OF l] i by simp
qed

lemma drains_pending:
  assumes wf: "wf_system s" and ns: "\<not> m_stopped (dispatcher s)" and en: "loop s \<noteq> NotEntered"
  shows "invoked (run (replicate (drain_steps s) LoopThread_step) s) = accounted s"
proof (cases "loop s")
  case NotEntered
  with en show ?thesis by simp
next
  case Returned
  with wf ns show ?thesis by (simp add: wf_system_def)
next
  case Waiting
  let ?P = "m_pendingActions (dispatcher s)"
  show ?thesis
  proof (cases "m_conditionVariable (dispatcher s) = Notified")
    case True
    let ?s1 = "s\<lparr>dispatcher := (dispatcher s)\<lparr>m_conditionVariable := NoWaiter\<rparr>\<rparr>"
    have s1: "RunEventLoop_step s = at_while ?s1"
      using Waiting True by (simp add: RunEventLoop_step_def)
    have "invoked (run (replicate (length (m_pendingActions (dispatcher ?s1))) LoopThread_step) (at_while ?s1))
       = invoked ?s1 @ m_pendingActions (dispatcher ?s1)"
      by (rule drain_at_while) (use ns Waiting in simp_all)
    then show ?thesis
      using Waiting by (simp add: drain_steps_def accounted_def run_Cons s1)
  next
    case False
    with wf Waiting have b: "m_conditionVariable (dispatcher s) = Blocked"
      by (cases "m_conditionVariable (dispatcher s)") (simp_all add: wf_system_def)
    with wf have p: "?P = []" by (simp add: wf_system_def)
    have "step LoopThread_step s = s"
      using Waiting b by (simp add: RunEventLoop_step_def)
    then show ?thesis
      using Waiting p by (simp add: drain_steps_def accounted_def run_Cons run_Nil)
  qed
next
  case (Invoking B)
  let ?P = "m_pendingActions (dispatcher s)"
  let ?s1 = "s\<lparr>invoked := invoked s @ B, loop := Invoking []\<rparr>"
  have a: "run (replicate (length B) LoopThread_step) s = ?s1"
    by (rule invoke_batch [OF Invoking])
  have s2: "RunEventLoop_step ?s1 = at_while ?s1"
    by (simp add: RunEventLoop_step_def)
  have d: "invoked (run (replicate (length (m_pendingActions (dispatcher ?s1))) LoopThread_step) (at_while ?s1))
       = invoked ?s1 @ m_pendingActions (dispatcher ?s1)"
    by (rule drain_at_while) (use ns in simp_all)
  have "drain_steps s = length B + Suc (length ?P)"
    using Invoking by (simp add: drain_steps_def)
  then have "replicate (drain_steps s) LoopThread_step
      = replicate (length B) LoopThread_step @ replicate (Suc (length ?P)) LoopThread_step"
    by (simp only: replicate_add)
  then have "run (replicate (drain_steps s) LoopThread_step) s
      = run (replicate (Suc (length ?P)) LoopThread_step) ?s1"
    by (simp only: run_append a)
  also have "\<dots> = run (replicate (length ?P) LoopThread_step) (at_while ?s1)"
    by (simp add: run_Cons s2)
  finally show ?thesis using d Invoking by (simp add: accounted_def)
qed

lemma with_priority_take: "prefix (with_priority p (take n xs)) (with_priority p xs)"
proof -
  have "prefix (take n xs) xs" by (rule take_is_prefix)
  then show ?thesis
    unfolding with_priority_def by (intro map_mono_prefix filter_mono_prefix)
qed


lemma reach_accounted:
  "accounted (run evs (initial_system mem)) = map snd (enqueued evs)"
  by (simp add: accounted_run initial_accounted)

text \<open>
  A stop request made while the loop thread is inside \<open>RunEventLoop\<close>, under every
  schedule: the actions invoked are an initial part of those enqueued before the
  request, and once the loop thread has taken one transition more than the batch it had
  in flight at the request, it has returned.
\<close>

lemma exit_request_abandons_later_work:
  assumes "loop (run pre (initial_system mem)) \<noteq> NotEntered"
  shows "prefix (invoked (run (pre @ Call_EnqueueEventLoopExit # post) (initial_system mem)))
           (map snd (enqueued pre)) \<and>
         (length (in_flight (loop (run pre (initial_system mem)))) < loop_steps post \<longrightarrow>
            loop (run (pre @ Call_EnqueueEventLoopExit # post) (initial_system mem)) = Returned)"
proof -
  let ?s = "run pre (initial_system mem)"
  let ?s1 = "step Call_EnqueueEventLoopExit ?s"
  have wf: "wf_system ?s" by (rule wf_run [OF wf_initial])
  have st: "stopping ?s1" by (rule stopping_after_request [OF wf assms])
  have r: "run (pre @ Call_EnqueueEventLoopExit # post) (initial_system mem) = run post ?s1"
    by (simp add: run_append run_Cons)
  have k: "invoked ?s1 = invoked ?s" "loop ?s1 = loop ?s"
    by (simp_all add: step_defs)
  have "prefix (invoked (run post ?s1) @ in_flight (loop (run post ?s1)))
          (invoked ?s @ in_flight (loop ?s))"
    using stopping_prefix_run [OF st, of post] k by simp
  moreover have "map snd (enqueued pre) =
      (invoked ?s @ in_flight (loop ?s)) @ m_pendingActions (dispatcher ?s)"
    using reach_accounted [of pre mem] by (simp add: accounted_def)
  then have "prefix (invoked ?s @ in_flight (loop ?s)) (map snd (enqueued pre))"
    by (rule prefixI)
  ultimately have p: "prefix (invoked (run post ?s1)) (map snd (enqueued pre))"
    by (meson append_prefixD prefix_order.trans)
  have "length (in_flight (loop ?s)) < loop_steps post \<longrightarrow> loop (run post ?s1) = Returned"
    using stopping_exits [OF st, of post] k by simp
  with p show ?thesis by (simp add: r)
qed

section \<open>The out-parameter and the return value of TryEnqueueWithPriority\<close>

text \<open>
  C10: \<open>TryEnqueueWithPriority\<close> never writes through \<open>result\<close>. For every call, the
  memory after the call is the memory before it; in particular the cell \<open>result\<close>
  points to holds what it held before, initialised or not.
\<close>

theorem TryEnqueueWithPriority_leaves_result:
  "snd (snd (TryEnqueueWithPriority priority handler result (this, mem))) = mem \<and>
   snd (snd (TryEnqueueWithPriority priority handler result (this, mem))) result = mem result \<and>
   memory (step (Call_TryEnqueueWithPriority priority handler result) s) = memory s"
  by (simp add: TryEnqueueWithPriority_simps)

theorem TryEnqueueWithPriority_leaves_result_witness:
  "snd (snd (TryEnqueueWithPriority DispatcherQueuePriority_Normal (Callback 1 S_OK) 0
      (FakeDispatcher_ctor, \<lambda>a. None))) 0 = None \<and>
   snd (snd (TryEnqueueWithPriority DispatcherQueuePriority_Normal (Callback 1 S_OK) 0
      (FakeDispatcher_ctor, (\<lambda>a. None)(0 := Some 0)))) 0 = Some 0"
  using TryEnqueueWithPriority_leaves_result
    [of DispatcherQueuePriority_Normal "Callback 1 S_OK" 0 FakeDispatcher_ctor "\<lambda>a. None"]
    TryEnqueueWithPriority_leaves_result
    [of DispatcherQueuePriority_Normal "Callback 1 S_OK" 0 FakeDispatcher_ctor
      "(\<lambda>a. None)(0 := Some 0)"]
  by simp

text \<open>
  C6 as stated fails: after a stop request, and after the event loop has returned,
  \<open>TryEnqueueWithPriority\<close> still appends the handler to the pending list and returns
  a value that is not a failure.
\<close>

theorem TryEnqueueWithPriority_after_shutdown_counterexample:
  "loop (run [LoopThread_step, Call_EnqueueEventLoopExit, LoopThread_step]
      (initial_system (\<lambda>a. None))) = Returned \<and>
   m_stopped (dispatcher (run [LoopThread_step, Call_EnqueueEventLoopExit, LoopThread_step]
      (initial_system (\<lambda>a. None)))) \<and>
   \<not> FAILED (fst (TryEnqueueWithPriority DispatcherQueuePriority_Normal (Callback 1 S_OK) 0
      (dispatcher (run [LoopThread_step, Call_EnqueueEventLoopExit, LoopThread_step]
         (initial_system (\<lambda>a. None))), \<lambda>a. None))) \<and>
   m_pendingActions (fst (snd (TryEnqueueWithPriority DispatcherQueuePriority_Normal
      (Callback 1 S_OK) 0
      (dispatcher (run [LoopThread_step, Call_EnqueueEventLoopExit, LoopThread_step]
         (initial_system (\<lambda>a. None))), \<lambda>a. None)))) = [Make (Callback 1 S_OK)]"
  by (simp add: run_def step_defs initial_system_def FakeDispatcher_ctor_def notify_all_def
      FAILED_def)

text \<open>
  C6, amended: \<open>TryEnqueueWithPriority\<close> never returns a failure status, whatever the
  state of the dispatcher (stopped or not): every call schedules the handler, appending
  its action to the pending list, and returns a value that is not a failure.
\<close>

theorem TryEnqueueWithPriority_never_fails:
  "\<not> FAILED (fst (TryEnqueueWithPriority priority handler result (this, mem))) \<and>
   m_pendingActions (fst (snd (TryEnqueueWithPriority priority handler result (this, mem)))) =
     m_pendingActions this @ [Make handler]"
  by (simp add: TryEnqueueWithPriority_simps FAILED_def HRESULT_of_bool_def)

theorem TryEnqueueWithPriority_never_fails_witness:
  "\<not> FAILED (fst (TryEnqueueWithPriority DispatcherQueuePriority_Low (Callback 2 S_OK) 0
      (FakeDispatcher_ctor\<lparr>m_stopped := True\<rparr>, \<lambda>a. None))) \<and>
   m_pendingActions (fst (snd (TryEnqueueWithPriority DispatcherQueuePriority_Low
      (Callback 2 S_OK) 0 (FakeDispatcher_ctor\<lparr>m_stopped := True\<rparr>, \<lambda>a. None)))) =
     [Make (Callback 2 S_OK)]"
proof -
  have p: "m_pendingActions (FakeDispatcher_ctor\<lparr>m_stopped := True\<rparr>) = []"
    by (simp add: FakeDispatcher_ctor_def)
  show ?thesis
    using TryEnqueueWithPriority_never_fails
      [of DispatcherQueuePriority_Low "Callback 2 S_OK" 0
        "FakeDispatcher_ctor\<lparr>m_stopped := True\<rparr>" "\<lambda>a. None"]
    unfolding p append_Nil by blast
qed

section \<open>Entering, running and leaving the event loop\<close>

text \<open>
  C9: \<open>RunEventLoop\<close> clears an exit request recorded before it starts. If
  \<open>EnqueueEventLoopExit\<close> is called before \<open>RunEventLoop\<close> is entered, the flag it set
  is false again after entry, and whatever happens next short of a new exit request,
  the loop has not returned.
\<close>

theorem RunEventLoop_clears_earlier_exit_request:
  assumes "loop s = NotEntered" and "Call_EnqueueEventLoopExit \<notin> set evs"
  shows "m_stopped (dispatcher (step Call_EnqueueEventLoopExit s)) \<and>
         \<not> m_stopped (dispatcher (run [Call_EnqueueEventLoopExit, LoopThread_step] s)) \<and>
         loop (run (Call_EnqueueEventLoopExit # LoopThread_step # evs) s) \<noteq> Returned \<and>
         loop (run (Call_EnqueueEventLoopExit # LoopThread_step # evs) s) \<noteq> NotEntered"
proof -
  let ?s1 = "step Call_EnqueueEventLoopExit s"
  let ?s2 = "step LoopThread_step ?s1"
  have l1: "loop ?s1 = NotEntered" and m1: "m_stopped (dispatcher ?s1)"
    using assms(1) request_keeps_loop [of s] by simp_all
  note e = entry_running [OF l1]
  from e have r: "\<not> m_stopped (dispatcher (run evs ?s2)) \<and> loop (run evs ?s2) \<noteq> NotEntered \<and>
      loop (run evs ?s2) \<noteq> Returned"
    using running_run [of ?s2 evs] assms(2) by blast
  show ?thesis using m1 e r by (simp add: run_Cons run_Nil)
qed

theorem RunEventLoop_clears_earlier_exit_request_witness:
  "loop (run [Call_EnqueueEventLoopExit, LoopThread_step,
        Call_TryEnqueueWithPriority DispatcherQueuePriority_Low (Callback 1 S_OK) 0,
        LoopThread_step, LoopThread_step, LoopThread_step]
      (initial_system (\<lambda>a. None))) \<noteq> Returned \<and>
   invoked (run [Call_EnqueueEventLoopExit, LoopThread_step,
        Call_TryEnqueueWithPriority DispatcherQueuePriority_Low (Callback 1 S_OK) 0,
        LoopThread_step, LoopThread_step, LoopThread_step]
      (initial_system (\<lambda>a. None))) = [Make (Callback 1 S_OK)]"
proof -
  have h1: "loop (initial_system (\<lambda>a. None)) = NotEntered"
    by (simp add: initial_system_def)
  have h2: "Call_EnqueueEventLoopExit \<notin> set [
        Call_TryEnqueueWithPriority DispatcherQueuePriority_Low (Callback 1 S_OK) 0,
        LoopThread_step, LoopThread_step, LoopThread_step]"
    by simp
  have "invoked (run [Call_EnqueueEventLoopExit, LoopThread_step,
        Call_TryEnqueueWithPriority DispatcherQueuePriority_Low (Callback 1 S_OK) 0,
        LoopThread_step, LoopThread_step, LoopThread_step]
      (initial_system (\<lambda>a. None))) = [Make (Callback 1 S_OK)]"
    by (simp add: run_def step_defs initial_system_def FakeDispatcher_ctor_def notify_all_def)
  then show ?thesis using RunEventLoop_clears_earlier_exit_request [OF h1 h2] by simp
qed

text \<open>
  C8: from a new dispatcher, under every schedule,
  \<^item> \<open>RunEventLoop\<close> has returned only if \<open>EnqueueEventLoopExit\<close> was called at a
    moment when the loop had been entered;
  \<^item> the actions invoked, the rest of the batch in flight and the pending list
    together are the actions enqueued, in the order of the calls: the loop invokes in
    FIFO order, all priorities together, and so in FIFO order within each priority;
  \<^item> while no exit is requested, the loop thread drains all pending work: after
    \<open>drain_steps\<close> transitions of its own it has invoked everything enqueued so far.
\<close>

theorem RunEventLoop_returns_after_exit_and_drains_in_order:
  "(loop (run evs (initial_system mem)) = Returned \<longrightarrow>
      (\<exists>pre post. evs = pre @ Call_EnqueueEventLoopExit # post \<and>
         loop (run pre (initial_system mem)) \<noteq> NotEntered)) \<and>
   invoked (run evs (initial_system mem)) @ in_flight (loop (run evs (initial_system mem))) @
     m_pendingActions (dispatcher (run evs (initial_system mem))) = map snd (enqueued evs) \<and>
   invoked (run evs (initial_system mem)) =
     map snd (take (length (invoked (run evs (initial_system mem)))) (enqueued evs)) \<and>
   (\<forall>p. prefix
      (with_priority p (take (length (invoked (run evs (initial_system mem)))) (enqueued evs)))
      (with_priority p (enqueued evs))) \<and>
   (\<not> m_stopped (dispatcher (run evs (initial_system mem))) \<and>
    loop (run evs (initial_system mem)) \<noteq> NotEntered \<longrightarrow>
      invoked (run (replicate (drain_steps (run evs (initial_system mem))) LoopThread_step)
                 (run evs (initial_system mem))) = map snd (enqueued evs))"
proof -
  let ?s = "run evs (initial_system mem)"
  have wf: "wf_system ?s" by (rule wf_run [OF wf_initial])
  have acc: "invoked ?s @ in_flight (loop ?s) @ m_pendingActions (dispatcher ?s) = map snd (enqueued evs)"
    using reach_accounted [of evs mem] by (simp add: accounted_def)
  have "take (length (invoked ?s)) (invoked ?s @ in_flight (loop ?s) @ m_pendingActions (dispatcher ?s)) = invoked ?s"
    by simp
  then have tk: "invoked ?s = map snd (take (length (invoked ?s)) (enqueued evs))"
    by (simp only: acc take_map)
  have dr: "\<not> m_stopped (dispatcher ?s) \<and> loop ?s \<noteq> NotEntered \<longrightarrow>
      invoked (run (replicate (drain_steps ?s) LoopThread_step) ?s) = map snd (enqueued evs)"
    using drains_pending [OF wf] reach_accounted [of evs mem] by simp
  show ?thesis
    using returned_has_request [of evs mem] acc tk dr with_priority_take
    by blast
qed

theorem RunEventLoop_returns_after_exit_and_drains_in_order_witness:
  "loop (run [Call_TryEnqueueWithPriority DispatcherQueuePriority_Normal (Callback 1 S_OK) 0,
        LoopThread_step,
        Call_TryEnqueueWithPriority DispatcherQueuePriority_Low (Callback 2 S_OK) 0,
        LoopThread_step, Call_EnqueueEventLoopExit, LoopThread_step]
      (initial_system (\<lambda>a. None))) = Returned \<and>
   (\<exists>pre post.
      [Call_TryEnqueueWithPriority DispatcherQueuePriority_Normal (Callback 1 S_OK) 0,
       LoopThread_step,
       Call_TryEnqueueWithPriority DispatcherQueuePriority_Low (Callback 2 S_OK) 0,
       LoopThread_step, Call_EnqueueEventLoopExit, LoopThread_step]
        = pre @ Call_EnqueueEventLoopExit # post \<and>
      loop (run pre (initial_system (\<lambda>a. None))) \<noteq> NotEntered) \<and>
   invoked (run (replicate 3 LoopThread_step)
      (run [Call_TryEnqueueWithPriority DispatcherQueuePriority_Normal (Callback 1 S_OK) 0,
            LoopThread_step,
            Call_TryEnqueueWithPriority DispatcherQueuePriority_Low (Callback 2 S_OK) 0]
         (initial_system (\<lambda>a. None)))) = [Make (Callback 1 S_OK), Make (Callback 2 S_OK)]"
proof -
  let ?E = "[Call_TryEnqueueWithPriority DispatcherQueuePriority_Normal (Callback 1 S_OK) 0,
        LoopThread_step,
        Call_TryEnqueueWithPriority DispatcherQueuePriority_Low (Callback 2 S_OK) 0,
        LoopThread_step, Call_EnqueueEventLoopExit, LoopThread_step]"
  let ?F = "[Call_TryEnqueueWithPriority DispatcherQueuePriority_Normal (Callback 1 S_OK) 0,
        LoopThread_step,
        Call_TryEnqueueWithPriority DispatcherQueuePriority_Low (Callback 2 S_OK) 0]"
  let ?i = "initial_system (\<lambda>a. None)"
  have r: "loop (run ?E ?i) = Returned"
    by (simp add: run_def step_defs initial_system_def FakeDispatcher_ctor_def notify_all_def)
  have f: "\<not> m_stopped (dispatcher (run ?F ?i)) \<and> loop (run ?F ?i) \<noteq> NotEntered"
    by (simp add: run_def step_defs initial_system_def FakeDispatcher_ctor_def notify_all_def)
  have d: "drain_steps (run ?F ?i) = 3"
    by (simp add: drain_steps_def run_def step_defs initial_system_def FakeDispatcher_ctor_def
        notify_all_def)
  have e: "map snd (enqueued ?F) = [Make (Callback 1 S_OK), Make (Callback 2 S_OK)]"
    by simp
  show ?thesis
    using r f RunEventLoop_returns_after_exit_and_drains_in_order [of ?E "\<lambda>a. None"]
      RunEventLoop_returns_after_exit_and_drains_in_order [of ?F "\<lambda>a. None"]
    unfolding d e by blast
qed

section \<open>Completion handlers of a unit of work\<close>

lemma Invoke_completed_unlocked:
  "\<not> m_lock a \<Longrightarrow>
   Invoke_completed h st (a, log) = Inr (a\<lparr>m_lock := False\<rparr>, log @ [CompletionDelivered h st])"
  by (simp add: Invoke_completed_def get_Status_def acquire_def release_def)

lemma put_Completed_unlocked:
  "\<not> m_lock a \<Longrightarrow>
   put_Completed h (a, log) =
     (if m_status a = Completed \<or> m_status a = Failed
      then Inr (a\<lparr>m_lock := False\<rparr>, log @ [CompletionDelivered h (m_status a)])
      else Inr (a\<lparr>m_completed := Some h, m_lock := False\<rparr>, log))"
  by (simp add: put_Completed_def acquire_def release_def Invoke_completed_unlocked)

lemma FireCompletion_unlocked:
  "\<not> m_lock a \<Longrightarrow>
   FireCompletion st (a, log) =
     Inr (a\<lparr>m_status := st, m_lock := False\<rparr>,
          log @ (case m_completed a of None \<Rightarrow> [] | Some h \<Rightarrow> [CompletionDelivered h st]))"
  by (simp add: FireCompletion_def acquire_def release_def Invoke_completed_unlocked Let_def
      split: option.splits)

lemma InvokeAndFireCompletion_unlocked:
  "\<not> m_lock a \<Longrightarrow>
   InvokeAndFireCompletion (a, log) =
     (if m_status a \<noteq> Pending then Inr (a\<lparr>m_lock := False\<rparr>, log)
      else Inr (a\<lparr>m_status := final_status (m_dispatchedHandler a), m_lock := False\<rparr>,
                log @ CallbackInvoked (m_dispatchedHandler a) #
                  (case m_completed a of None \<Rightarrow> []
                   | Some h \<Rightarrow> [CompletionDelivered h (final_status (m_dispatchedHandler a))])))"
  by (simp add: InvokeAndFireCompletion_def acquire_def release_def FireCompletion_unlocked Let_def)

lemma action_run_Inl: "action_run xs (Inl e) = Inl e"
  by (cases xs) simp_all

lemma action_run_append: "action_run (xs @ ys) r = action_run ys (action_run xs r)"
proof (induction xs arbitrary: r)
  case Nil
  show ?case by simp
next
  case (Cons x xs)
  show ?case by (cases r) (simp_all add: Cons.IH action_run_Inl)
qed

lemma action_run_snoc:
  "action_run (xs @ [x]) r =
     (case action_run xs r of Inl e \<Rightarrow> Inl e | Inr s \<Rightarrow> action_step x s)"
  by (simp add: action_run_append split: sum.splits)

lemma registrations_append: "registrations (xs @ ys) = registrations xs @ registrations ys"
  by (induction xs rule: registrations.induct) simp_all

lemma deliveries_append: "deliveries (xs @ ys) = deliveries xs @ deliveries ys"
  by (induction xs rule: deliveries.induct) simp_all

lemma invocations_append: "invocations (xs @ ys) = invocations xs @ invocations ys"
  by (induction xs rule: invocations.induct) simp_all

lemma final_status_not_Pending: "final_status c \<noteq> Pending"
  by (simp add: final_status_def)

lemma final_status_final: "final_status c = Completed \<or> final_status c = Failed"
  by (simp add: final_status_def)

lemma action_inv_run:
  "length (registrations ops) \<le> 1 \<Longrightarrow>
   \<exists>s. action_run ops (Inr (Make callback, [])) = Inr s \<and> action_inv callback ops s"
proof (induction ops rule: rev_induct)
  case Nil
  show ?case by (simp add: action_inv_def Make_def)
next
  case (snoc x xs)
  from snoc.prems have le: "length (registrations xs) \<le> 1"
    by (simp add: registrations_append)
  from snoc.IH [OF le] obtain a log where
    r: "action_run xs (Inr (Make callback, [])) = Inr (a, log)" and
    i: "action_inv callback xs (a, log)" by auto
  from i have ul: "\<not> m_lock a" by (simp add: action_inv_def)
  show ?case
  proof (cases x)
    case Op_InvokeAndFireCompletion
    have fs: "final_status callback \<noteq> Pending" by (rule final_status_not_Pending)
    show ?thesis
      using i fs
      by (auto simp: action_run_snoc r Op_InvokeAndFireCompletion
          InvokeAndFireCompletion_unlocked [OF ul] action_inv_def registrations_append
          deliveries_append invocations_append
          split: list.splits option.splits if_splits)
  next
    case (Op_put_Completed h)
    with snoc.prems have e: "registrations xs = []"
      by (simp add: registrations_append)
    show ?thesis
      using i e final_status_final [of callback]
      by (auto simp: action_run_snoc r Op_put_Completed
          put_Completed_unlocked [OF ul] action_inv_def registrations_append
          deliveries_append invocations_append
          split: list.splits option.splits if_splits)
  qed
qed

lemma MockGameLoopThread_first_RunAsync:
  "MockGameLoopThread_RunAsync callback (MockGameLoopThread_ctor, []) =
     Inr (Make callback\<lparr>m_status := final_status callback, m_lock := False\<rparr>,
          \<lparr>m_first = False\<rparr>, [CallbackInvoked callback])"
  by (simp add: MockGameLoopThread_RunAsync_def MockGameLoopThread_ctor_def
      InvokeAndFireCompletion_unlocked Make_def)

text \<open>
  C1: for a unit of work, under every history of \<open>InvokeAndFireCompletion\<close> and
  \<open>put_Completed\<close> calls in which the completion handler is registered once and the
  work completes (at least one \<open>InvokeAndFireCompletion\<close>), in whichever order: no call
  deadlocks, the callback is invoked exactly once, and the handler is invoked exactly
  once, with the final status. When the registration is the last call, the delivery has
  happened by the time \<open>put_Completed\<close> returns. The handler may call back into the
  action.
\<close>

theorem completion_handler_invoked_exactly_once:
  assumes "registrations ops = [h]" and "Op_InvokeAndFireCompletion \<in> set ops"
  shows "\<exists>a log. action_run ops (Inr (Make callback, [])) = Inr (a, log) \<and>
           deliveries log = [(h, final_status callback)] \<and>
           invocations log = [callback] \<and>
           m_status a = final_status callback"
proof -
  from assms(1) have "length (registrations ops) \<le> 1" by simp
  from action_inv_run [OF this, of callback] obtain a log where
    "action_run ops (Inr (Make callback, [])) = Inr (a, log)" and
    "action_inv callback ops (a, log)" by auto
  with assms show ?thesis by (simp add: action_inv_def)
qed

theorem completion_handler_invoked_exactly_once_witness:
  "(\<exists>a log.
      action_run [Op_InvokeAndFireCompletion, Op_put_Completed (CompletedHandler 1 True)]
        (Inr (Make (Callback 1 S_OK), [])) = Inr (a, log) \<and>
      deliveries log = [(CompletedHandler 1 True, Completed)] \<and>
      invocations log = [Callback 1 S_OK]) \<and>
   (\<exists>action this log.
      MockGameLoopThread_RunAsync (Callback 1 S_OK) (MockGameLoopThread_ctor, []) =
        Inr (action, this, log) \<and>
      action_run [Op_InvokeAndFireCompletion] (Inr (Make (Callback 1 S_OK), [])) =
        Inr (action, log))"
proof -
  have h1: "registrations [Op_InvokeAndFireCompletion, Op_put_Completed (CompletedHandler 1 True)]
      = [CompletedHandler 1 True]" by simp
  have h2: "Op_InvokeAndFireCompletion \<in>
      set [Op_InvokeAndFireCompletion, Op_put_Completed (CompletedHandler 1 True)]" by simp
  have f: "final_status (Callback 1 S_OK) = Completed"
    by (simp add: final_status_def FAILED_def S_OK_def)
  have m: "action_run [Op_InvokeAndFireCompletion] (Inr (Make (Callback 1 S_OK), [])) =
      Inr (Make (Callback 1 S_OK)\<lparr>m_status := final_status (Callback 1 S_OK), m_lock := False\<rparr>,
           [CallbackInvoked (Callback 1 S_OK)])"
    by (simp add: InvokeAndFireCompletion_unlocked Make_def)
  show ?thesis
    using completion_handler_invoked_exactly_once [OF h1 h2, of "Callback 1 S_OK"]
      MockGameLoopThread_first_RunAsync [of "Callback 1 S_OK"] m
    unfolding f by blast
qed

section \<open>The game loop thread\<close>

lemma thread_run_Nil: "thread_run [] t = t"
  by (simp add: thread_run_def)

lemma thread_run_Cons: "thread_run (c # cs) t = thread_run cs (thread_step c t)"
  by (simp add: thread_run_def)

lemma thread_run_append: "thread_run (xs @ ys) t = thread_run ys (thread_run xs t)"
  by (simp add: thread_run_def)

lemma loop_steps_replicate: "loop_steps (replicate n LoopThread_step) = n"
  by (induction n) simp_all

lemma enqueued_replicate: "enqueued (replicate n LoopThread_step) = []"
  by (induction n) simp_all

lemma StartDispatcher_simps:
  "m_system (StartDispatcher t) =
     (if m_phase t = Constructed then step LoopThread_step (m_system t) else m_system t)"
  "m_phase (StartDispatcher t) = (if m_phase t = Constructed then Running else m_phase t)"
  "m_client (StartDispatcher t) = m_client t"
  "m_trace (StartDispatcher t) =
     (if m_phase t = Constructed
      then m_trace t @ observe (m_system t) (step LoopThread_step (m_system t))
      else m_trace t)"
  by (simp_all add: StartDispatcher_def)

lemma StopDispatcher_simps:
  "m_system (StopDispatcher t) =
     (if m_phase t = Running then wait_for_exit (step Call_EnqueueEventLoopExit (m_system t))
      else m_system t)"
  "m_phase (StopDispatcher t) = (if m_phase t = Running then Stopped else m_phase t)"
  "m_client (StopDispatcher t) = m_client t"
  "m_trace (StopDispatcher t) =
     (if m_phase t = Running
      then m_trace t @
        trace_of (Call_EnqueueEventLoopExit #
                  wait_for_exit_steps (step Call_EnqueueEventLoopExit (m_system t))) (m_system t)
      else m_trace t)"
  by (simp_all add: StopDispatcher_def Let_def del: step.simps)

lemma RunAsync_simps:
  "m_system (RunAsync handler result t) =
     step (Call_TryEnqueueWithPriority DispatcherQueuePriority_Low handler result) (m_system t)"
  "m_phase (RunAsync handler result t) = m_phase t"
  "m_client (RunAsync handler result t) = m_client t"
  "m_trace (RunAsync handler result t) = m_trace t"
  by (simp_all add: RunAsync_def del: step.simps)

lemma Destroy_simps:
  "m_system (Destroy t) = m_system (StopDispatcher t)"
  "m_client (Destroy t) = OnGameLoopStopped (m_client t)"
  "m_trace (Destroy t) = m_trace (StopDispatcher t) @ [GameLoopStopped_notified]"
  by (simp_all add: Destroy_def notify_stopped_def StopDispatcher_simps)

lemma event_simps:
  "m_system (thread_step (Dispatcher_event ev) t) =
     (if is_loop_event ev \<and> m_phase t \<noteq> Running then m_system t else step ev (m_system t))"
  "m_phase (thread_step (Dispatcher_event ev) t) = m_phase t"
  "m_client (thread_step (Dispatcher_event ev) t) = m_client t"
  "m_trace (thread_step (Dispatcher_event ev) t) =
     (if is_loop_event ev \<and> m_phase t \<noteq> Running then m_trace t
      else m_trace t @ observe (m_system t) (step ev (m_system t)))"
  by (simp_all del: step.simps)

lemmas thread_simps =
  StartDispatcher_simps StopDispatcher_simps RunAsync_simps event_simps

lemma wait_for_exit_returns:
  assumes "wf_system s" and "loop s \<noteq> NotEntered"
  shows "loop (wait_for_exit (step Call_EnqueueEventLoopExit s)) = Returned"
proof -
  let ?s1 = "step Call_EnqueueEventLoopExit s"
  have st: "stopping ?s1" by (rule stopping_after_request [OF assms])
  have "length (in_flight (loop ?s1)) <
      loop_steps (replicate (Suc (length (in_flight (loop ?s1)))) LoopThread_step)"
    by (simp only: loop_steps_replicate lessI)
  from stopping_exits [OF st this] show ?thesis
    by (simp only: wait_for_exit_def wait_for_exit_steps_def)
qed

lemma entered_step: "loop s \<noteq> NotEntered \<Longrightarrow> loop (step ev s) \<noteq> NotEntered"
  by (cases ev)
    (auto simp: step_defs split: RunEventLoop_pc.splits list.splits if_splits)

lemma returned_step: "loop s = Returned \<Longrightarrow> loop (step ev s) = Returned"
  by (cases ev) (auto simp: step_defs)

lemma returned_invoked: "loop s = Returned \<Longrightarrow> invoked (step ev s) = invoked s"
  by (cases ev) (auto simp: step_defs)

lemma caller_step: "\<not> is_loop_event ev \<Longrightarrow> loop (step ev s) = loop s"
  by (cases ev) (auto simp: step_defs)

lemma caller_invoked: "\<not> is_loop_event ev \<Longrightarrow> invoked (step ev s) = invoked s"
  by (cases ev) (auto simp: step_defs)

lemma thread_inv_Create: "thread_inv (CreateGameLoopThread mem client)"
  by (simp add: thread_inv_def CreateGameLoopThread_def wf_initial) (simp add: initial_system_def)

lemma thread_inv_Start: "thread_inv t \<Longrightarrow> thread_inv (StartDispatcher t)"
  using entry_running [of "m_system t"] wf_step [of "m_system t" LoopThread_step]
  by (auto simp: thread_inv_def StartDispatcher_simps simp del: step.simps
      split: GameLoopThread_phase.splits)

lemma thread_inv_Stop: "thread_inv t \<Longrightarrow> thread_inv (StopDispatcher t)"
proof (cases "m_phase t = Running")
  case False
  assume "thread_inv t"
  with False show ?thesis by (simp add: StopDispatcher_def)
next
  case True
  assume i: "thread_inv t"
  with True have wf: "wf_system (m_system t)" and en: "loop (m_system t) \<noteq> NotEntered"
    by (simp_all add: thread_inv_def)
  have "wf_system (wait_for_exit (step Call_EnqueueEventLoopExit (m_system t)))"
    unfolding wait_for_exit_def by (intro wf_run wf_step wf)
  with wait_for_exit_returns [OF wf en] True show ?thesis
    by (simp add: thread_inv_def StopDispatcher_simps del: step.simps)
qed

lemma thread_inv_RunAsync: "thread_inv t \<Longrightarrow> thread_inv (RunAsync handler result t)"
  using caller_step [of "Call_TryEnqueueWithPriority DispatcherQueuePriority_Low handler result" "m_system t"]
    wf_step [of "m_system t" "Call_TryEnqueueWithPriority DispatcherQueuePriority_Low handler result"]
  by (auto simp: thread_inv_def RunAsync_simps simp del: step.simps
      split: GameLoopThread_phase.splits)

lemma thread_inv_event:
  "thread_inv t \<Longrightarrow> thread_inv (thread_step (Dispatcher_event ev) t)"
  using caller_step [of ev "m_system t"] entered_step [of "m_system t" ev]
    returned_step [of "m_system t" ev] wf_step [of "m_system t" ev]
  by (auto simp: thread_inv_def event_simps simp del: step.simps thread_step.simps
      split: GameLoopThread_phase.splits)

lemma thread_inv_step: "thread_inv t \<Longrightarrow> thread_inv (thread_step c t)"
  by (cases c)
    (simp_all add: thread_inv_Start thread_inv_Stop thread_inv_RunAsync thread_inv_event
      del: thread_step.simps(4))

lemma thread_inv_run: "thread_inv t \<Longrightarrow> thread_inv (thread_run cs t)"
  by (induction cs arbitrary: t) (simp_all add: thread_run_Nil thread_run_Cons thread_inv_step)

lemma client_step: "m_client (thread_step c t) = m_client t"
  by (cases c) (simp_all add: thread_simps del: thread_step.simps(4))

lemma client_run: "m_client (thread_run cs t) = m_client t"
  by (induction cs arbitrary: t) (simp_all add: thread_run_Nil thread_run_Cons client_step)

lemma started_step: "m_phase t \<noteq> Constructed \<Longrightarrow> m_phase (thread_step c t) \<noteq> Constructed"
  by (cases c) (simp_all add: thread_simps del: thread_step.simps(4))

lemma started_run: "m_phase t \<noteq> Constructed \<Longrightarrow> m_phase (thread_run cs t) \<noteq> Constructed"
  by (induction cs arbitrary: t) (simp_all add: thread_run_Nil thread_run_Cons started_step)

lemma Start_starts: "m_phase (StartDispatcher t) \<noteq> Constructed"
  by (simp add: StartDispatcher_simps)

lemma started_after_Start:
  "Call_StartDispatcher \<in> set cs \<Longrightarrow> m_phase (thread_run cs t) \<noteq> Constructed"
proof (induction cs arbitrary: t)
  case Nil
  then show ?case by simp
next
  case (Cons c cs)
  show ?case
  proof (cases "c = Call_StartDispatcher")
    case True
    then show ?thesis
      using started_run [OF Start_starts, of cs t] by (simp add: thread_run_Cons)
  next
    case False
    with Cons show ?thesis by (simp add: thread_run_Cons)
  qed
qed

lemma unstarted_step:
  "m_phase t = Constructed \<Longrightarrow> c \<noteq> Call_StartDispatcher \<Longrightarrow>
   m_phase (thread_step c t) = Constructed"
  by (cases c) (simp_all add: thread_simps del: thread_step.simps(4))

lemma unstarted_run:
  "m_phase t = Constructed \<Longrightarrow> Call_StartDispatcher \<notin> set cs \<Longrightarrow>
   m_phase (thread_run cs t) = Constructed"
proof (induction cs arbitrary: t)
  case Nil
  then show ?case by (simp add: thread_run_Nil)
next
  case (Cons c cs)
  from Cons.prems have "c \<noteq> Call_StartDispatcher" "Call_StartDispatcher \<notin> set cs"
    by auto
  with Cons.IH [of "thread_step c t"] unstarted_step [OF Cons.prems(1), of c]
  show ?case by (simp add: thread_run_Cons del: thread_step.simps)
qed

lemma Destroy_loop:
  assumes "thread_inv t"
  shows "(m_phase t = Constructed \<longrightarrow> loop (m_system (Destroy t)) = NotEntered) \<and>
         (m_phase t \<noteq> Constructed \<longrightarrow> loop (m_system (Destroy t)) = Returned)"
proof -
  have "thread_inv (StopDispatcher t)" by (rule thread_inv_Stop [OF assms])
  moreover have "m_phase (StopDispatcher t) \<noteq> Running"
    by (simp add: StopDispatcher_simps)
  moreover have "m_phase t = Constructed \<longleftrightarrow> m_phase (StopDispatcher t) = Constructed"
    by (simp add: StopDispatcher_simps)
  ultimately show ?thesis
    by (cases "m_phase (StopDispatcher t)") (simp_all add: Destroy_simps thread_inv_def)
qed

lemma validation_thread_step:
  "\<not> is_direct_enqueue c \<Longrightarrow>
   RunAsyncValidation (dispatcher (m_system (thread_step c t))) =
     RunAsyncValidation (dispatcher (m_system t)) @
       (if is_RunAsync c then [DispatcherQueuePriority_Low] else [])"
proof (cases c)
  case Call_StartDispatcher
  then show ?thesis
    using validation_step [of LoopThread_step "m_system t"]
    by (simp add: StartDispatcher_simps del: step.simps)
next
  case Call_StopDispatcher
  then show ?thesis
    using validation_run [of "wait_for_exit_steps (step Call_EnqueueEventLoopExit (m_system t))"
        "step Call_EnqueueEventLoopExit (m_system t)"]
      validation_step [of Call_EnqueueEventLoopExit "m_system t"]
    by (simp add: StopDispatcher_simps wait_for_exit_def wait_for_exit_steps_def
        enqueued_replicate del: replicate.simps step.simps)
next
  case (Call_RunAsync handler result)
  then show ?thesis
    using validation_step [of "Call_TryEnqueueWithPriority DispatcherQueuePriority_Low handler result" "m_system t"]
    by (simp add: RunAsync_simps del: step.simps)
next
  case (Dispatcher_event ev)
  assume "\<not> is_direct_enqueue c"
  with Dispatcher_event have "enqueued [ev] = []" by (cases ev) simp_all
  with Dispatcher_event show ?thesis
    using validation_step [of ev "m_system t"] by (simp add: event_simps del: step.simps thread_step.simps)
qed

lemmas eval_defs =
  thread_run_def StartDispatcher_def StopDispatcher_def RunAsync_def Destroy_def
  notify_stopped_def observe_def wait_for_exit_def wait_for_exit_steps_def run_def step_defs
  CreateGameLoopThread_def initial_system_def FakeDispatcher_ctor_def notify_all_def
  OnGameLoopStopped_def

text \<open>
  C2: every tick is enqueued at Low priority. Under every history of the thread's
  methods and of the loop thread's transitions, in which nobody else enqueues on the
  dispatcher directly, the priorities the dispatcher has been called with are Low, one
  for each \<open>RunAsync\<close>.
\<close>

theorem RunAsync_enqueues_at_Low_priority:
  assumes "list_all (\<lambda>c. \<not> is_direct_enqueue c) cs"
  shows "RunAsyncValidation (dispatcher (m_system (thread_run cs t))) =
           RunAsyncValidation (dispatcher (m_system t)) @
             replicate (length (filter is_RunAsync cs)) DispatcherQueuePriority_Low"
  using assms
proof (induction cs arbitrary: t)
  case Nil
  show ?case by (simp add: thread_run_Nil)
next
  case (Cons c cs)
  from Cons.prems have n: "\<not> is_direct_enqueue c" and r: "list_all (\<lambda>c. \<not> is_direct_enqueue c) cs"
    by simp_all
  show ?case
    using Cons.IH [OF r, of "thread_step c t"] validation_thread_step [OF n, of t]
    by (simp add: thread_run_Cons replicate_append_same del: thread_step.simps)
qed

theorem RunAsync_enqueues_at_Low_priority_witness:
  "RunAsyncValidation (dispatcher (m_system (thread_run
      [Call_StartDispatcher, Call_RunAsync (Callback 1 S_OK) 0,
       Dispatcher_event LoopThread_step, Call_RunAsync (Callback 2 S_OK) 0,
       Call_StopDispatcher]
      (CreateGameLoopThread (\<lambda>a. None) \<lparr>GameLoopStarting = 0, GameLoopStopped = 0\<rparr>)))) =
     [DispatcherQueuePriority_Low, DispatcherQueuePriority_Low]"
proof -
  have h: "list_all (\<lambda>c. \<not> is_direct_enqueue c)
      [Call_StartDispatcher, Call_RunAsync (Callback 1 S_OK) 0,
       Dispatcher_event LoopThread_step, Call_RunAsync (Callback 2 S_OK) 0,
       Call_StopDispatcher]" by simp
  have n: "length (filter is_RunAsync
      [Call_StartDispatcher, Call_RunAsync (Callback 1 S_OK) 0,
       Dispatcher_event LoopThread_step, Call_RunAsync (Callback 2 S_OK) 0,
       Call_StopDispatcher]) = 2" by simp
  have i: "RunAsyncValidation (dispatcher (m_system
      (CreateGameLoopThread (\<lambda>a. None) \<lparr>GameLoopStarting = 0, GameLoopStopped = 0\<rparr>))) = []"
    by (simp add: CreateGameLoopThread_def initial_system_def FakeDispatcher_ctor_def)
  show ?thesis
    using RunAsync_enqueues_at_Low_priority [OF h,
        of "CreateGameLoopThread (\<lambda>a. None) \<lparr>GameLoopStarting = 0, GameLoopStopped = 0\<rparr>"]
    unfolding n i by (simp add: numeral_2_eq_2)
qed

section \<open>The stop notification\<close>

lemma observe_no_notification: "GameLoopStopped_notified \<notin> set (observe s s')"
  by (auto simp: observe_def)

lemma trace_of_no_notification: "GameLoopStopped_notified \<notin> set (trace_of evs s)"
  by (induction evs arbitrary: s) (simp_all add: observe_no_notification del: step.simps)

lemma observe_returned: "loop s = Returned \<Longrightarrow> observe s (step ev s) = []"
  by (simp add: observe_def returned_step returned_invoked del: step.simps)

lemma observe_caller: "\<not> is_loop_event ev \<Longrightarrow> observe s (step ev s) = []"
  by (simp add: observe_def caller_step caller_invoked del: step.simps)

lemma returned_last_observe:
  "returned_last tr s \<Longrightarrow> returned_last (tr @ observe s (step ev s)) (step ev s)"
proof (cases "loop s = Returned")
  case True
  assume "returned_last tr s"
  with True show ?thesis
    by (simp add: observe_returned returned_step returned_last_def del: step.simps)
next
  case False
  assume r: "returned_last tr s"
  with False have n: "Loop_returned \<notin> set tr" by (simp add: returned_last_def)
  show ?thesis
  proof (cases "loop (step ev s) = Returned")
    case True
    with False have "observe s (step ev s) =
        ((if loop s = NotEntered then [Loop_entered] else []) @
         map Handler_invoked (drop (length (invoked s)) (invoked (step ev s)))) @ [Loop_returned]"
      by (simp add: observe_def del: step.simps)
    then obtain x where o: "observe s (step ev s) = x @ [Loop_returned]"
      and x: "Loop_returned \<notin> set x" by auto
    show ?thesis
      using True n x by (simp add: returned_last_def o butlast_append del: step.simps)
  next
    case F2: False
    with False have "Loop_returned \<notin> set (observe s (step ev s))"
      by (auto simp: observe_def simp del: step.simps)
    with F2 n show ?thesis by (simp add: returned_last_def del: step.simps)
  qed
qed

lemma returned_last_trace_of:
  "returned_last tr s \<Longrightarrow> returned_last (tr @ trace_of evs s) (run evs s)"
proof (induction evs arbitrary: tr s)
  case Nil
  then show ?case by (simp add: run_Nil)
next
  case (Cons ev evs)
  from Cons.IH [OF returned_last_observe [OF Cons.prems, of ev]]
  show ?case by (simp add: run_Cons del: step.simps)
qed

lemma trace_inv_Create: "trace_inv (CreateGameLoopThread mem client)"
  by (simp add: trace_inv_def returned_last_def CreateGameLoopThread_def initial_system_def)

lemma trace_inv_Start:
  assumes "thread_inv t" and "trace_inv t"
  shows "trace_inv (StartDispatcher t)"
proof (cases "m_phase t = Constructed")
  case False
  with assms(2) show ?thesis by (simp add: StartDispatcher_def)
next
  case True
  with assms(1) have l: "loop (m_system t) = NotEntered" by (simp add: thread_inv_def)
  from entry_running [OF l] have "Loop_entered \<in> set (observe (m_system t) (step LoopThread_step (m_system t)))"
    using l by (simp add: observe_def del: step.simps)
  moreover from assms(2) have "returned_last (m_trace t) (m_system t)"
    by (simp add: trace_inv_def)
  then have "returned_last (m_trace t @ observe (m_system t) (step LoopThread_step (m_system t)))
      (step LoopThread_step (m_system t))"
    by (rule returned_last_observe)
  moreover from assms(2) have "GameLoopStopped_notified \<notin> set (m_trace t)"
    by (simp add: trace_inv_def)
  ultimately show ?thesis
    using True
    by (simp add: trace_inv_def StartDispatcher_simps observe_no_notification del: step.simps)
qed

lemma trace_inv_Stop:
  assumes "trace_inv t"
  shows "trace_inv (StopDispatcher t)"
proof (cases "m_phase t = Running")
  case False
  with assms show ?thesis by (simp add: StopDispatcher_def)
next
  case True
  let ?evs = "Call_EnqueueEventLoopExit #
     wait_for_exit_steps (step Call_EnqueueEventLoopExit (m_system t))"
  have r: "run ?evs (m_system t) = wait_for_exit (step Call_EnqueueEventLoopExit (m_system t))"
    by (simp add: run_Cons wait_for_exit_def del: step.simps)
  from assms have "returned_last (m_trace t) (m_system t)" by (simp add: trace_inv_def)
  from returned_last_trace_of [OF this, of ?evs]
  have "returned_last (m_trace t @ trace_of ?evs (m_system t))
     (wait_for_exit (step Call_EnqueueEventLoopExit (m_system t)))"
    by (simp only: r)
  with assms True trace_of_no_notification [of ?evs "m_system t"]
  show ?thesis
    by (simp add: trace_inv_def StopDispatcher_simps del: step.simps trace_of.simps)
qed

lemma trace_inv_RunAsync:
  assumes "trace_inv t"
  shows "trace_inv (RunAsync handler result t)"
proof -
  let ?ev = "Call_TryEnqueueWithPriority DispatcherQueuePriority_Low handler result"
  have "observe (m_system t) (step ?ev (m_system t)) = []"
    by (rule observe_caller) simp
  with assms returned_last_observe [of "m_trace t" "m_system t" ?ev]
  show ?thesis by (simp add: trace_inv_def RunAsync_simps del: step.simps)
qed

lemma trace_inv_event:
  assumes "thread_inv t" and "trace_inv t"
  shows "trace_inv (thread_step (Dispatcher_event ev) t)"
proof (cases "is_loop_event ev \<and> m_phase t \<noteq> Running")
  case True
  with assms(2) show ?thesis by simp
next
  case False
  have c: "m_phase t = Constructed \<Longrightarrow> observe (m_system t) (step ev (m_system t)) = []"
    using False by (auto intro: observe_caller)
  show ?thesis
    using assms(2) False c returned_last_observe [of "m_trace t" "m_system t" ev]
    by (auto simp: trace_inv_def event_simps observe_no_notification
        simp del: step.simps thread_step.simps)
qed

lemma trace_inv_step: "thread_inv t \<Longrightarrow> trace_inv t \<Longrightarrow> trace_inv (thread_step c t)"
  by (cases c)
    (simp_all add: trace_inv_Start trace_inv_Stop trace_inv_RunAsync trace_inv_event
      del: thread_step.simps(4))

lemma trace_inv_run: "thread_inv t \<Longrightarrow> trace_inv t \<Longrightarrow> trace_inv (thread_run cs t)"
  by (induction cs arbitrary: t)
    (simp_all add: thread_run_Nil thread_run_Cons thread_inv_step trace_inv_step)

lemma phase_Stop_Constructed:
  "(m_phase (StopDispatcher t) = Constructed) = (m_phase t = Constructed)"
  by (simp add: StopDispatcher_simps)

text \<open>
  C3: over the life of a game loop thread, whatever is called on it and whatever the
  dispatcher does meanwhile, \<open>OnGameLoopStopped\<close> is not delivered while the object is
  alive and is delivered exactly once by its destruction, also when \<open>StopDispatcher\<close>
  was never called. In the history of the destroyed object the notification is the last
  entry and the only one of its kind. If the dispatcher was ever started, the entry just
  before it is the return of the loop thread from \<open>RunEventLoop\<close> (its only return, with
  the loop's entry before it): the notification comes strictly after the event loop has
  stopped, and nothing is invoked after it. If the dispatcher was never started there
  is no loop activity at all before the notification.
\<close>

theorem OnGameLoopStopped_once_after_loop_exit:
  "GameLoopStopped_notified \<notin> set (m_trace (thread_run cs (CreateGameLoopThread mem client))) \<and>
   GameLoopStopped (m_client (thread_run cs (CreateGameLoopThread mem client))) =
     GameLoopStopped client \<and>
   GameLoopStopped (m_client (Destroy (thread_run cs (CreateGameLoopThread mem client)))) =
     Suc (GameLoopStopped client) \<and>
   (\<exists>pre. m_trace (Destroy (thread_run cs (CreateGameLoopThread mem client))) =
            pre @ [GameLoopStopped_notified] \<and>
          GameLoopStopped_notified \<notin> set pre \<and>
          (Call_StartDispatcher \<notin> set cs \<longrightarrow> pre = []) \<and>
          (Call_StartDispatcher \<in> set cs \<longrightarrow>
             (\<exists>a. pre = a @ [Loop_returned] \<and> Loop_returned \<notin> set a \<and>
                  Loop_entered \<in> set a))) \<and>
   (Call_StartDispatcher \<in> set cs \<longrightarrow>
      loop (m_system (Destroy (thread_run cs (CreateGameLoopThread mem client)))) = Returned)"
proof -
  let ?t = "thread_run cs (CreateGameLoopThread mem client)"
  let ?t1 = "StopDispatcher ?t"
  have i: "thread_inv ?t" by (rule thread_inv_run [OF thread_inv_Create])
  have j: "trace_inv ?t" by (rule trace_inv_run [OF thread_inv_Create trace_inv_Create])
  have i1: "thread_inv ?t1" by (rule thread_inv_Stop [OF i])
  have j1: "trace_inv ?t1" by (rule trace_inv_Stop [OF j])
  have c: "m_client ?t = client" by (simp add: client_run CreateGameLoopThread_def)
  have n: "GameLoopStopped_notified \<notin> set (m_trace ?t)"
    using j by (simp add: trace_inv_def)
  have n1: "GameLoopStopped_notified \<notin> set (m_trace ?t1)"
    using j1 by (simp add: trace_inv_def)
  have u: "Call_StartDispatcher \<notin> set cs \<longrightarrow> m_trace ?t1 = []"
  proof
    assume "Call_StartDispatcher \<notin> set cs"
    then have "m_phase ?t = Constructed"
      by (intro unstarted_run) (simp_all add: CreateGameLoopThread_def)
    then have "m_phase ?t1 = Constructed" by (simp add: phase_Stop_Constructed)
    with j1 show "m_trace ?t1 = []" by (simp add: trace_inv_def)
  qed
  have s: "Call_StartDispatcher \<in> set cs \<longrightarrow>
      (\<exists>a. m_trace ?t1 = a @ [Loop_returned] \<and> Loop_returned \<notin> set a \<and> Loop_entered \<in> set a)"
  proof
    assume st: "Call_StartDispatcher \<in> set cs"
    then have p: "m_phase ?t \<noteq> Constructed" by (rule started_after_Start)
    then have p1: "m_phase ?t1 \<noteq> Constructed" by (simp add: phase_Stop_Constructed)
    from Destroy_loop [OF i] p have "loop (m_system ?t1) = Returned"
      by (simp add: Destroy_simps)
    with j1 have ne: "m_trace ?t1 \<noteq> []" and la: "last (m_trace ?t1) = Loop_returned"
      and bl: "Loop_returned \<notin> set (butlast (m_trace ?t1))"
      by (simp_all add: trace_inv_def returned_last_def)
    from ne la have e: "m_trace ?t1 = butlast (m_trace ?t1) @ [Loop_returned]"
      by (metis append_butlast_last_id)
    from j1 p1 have "Loop_entered \<in> set (m_trace ?t1)" by (simp add: trace_inv_def)
    with e have "Loop_entered \<in> set (butlast (m_trace ?t1))"
      by (metis Un_iff empty_iff insert_iff lifecycle_event.distinct(3) list.set(1) list.set(2) set_append)
    with e bl show "\<exists>a. m_trace ?t1 = a @ [Loop_returned] \<and> Loop_returned \<notin> set a \<and> Loop_entered \<in> set a"
      by blast
  qed
  have l: "Call_StartDispatcher \<in> set cs \<longrightarrow> loop (m_system (Destroy ?t)) = Returned"
    using Destroy_loop [OF i] started_after_Start [of cs "CreateGameLoopThread mem client"]
    by blast
  have tr: "m_trace (Destroy ?t) = m_trace ?t1 @ [GameLoopStopped_notified]"
    by (simp add: Destroy_simps)
  show ?thesis
    using n c n1 u s l tr by (simp add: Destroy_simps OnGameLoopStopped_def)
qed

theorem OnGameLoopStopped_once_after_loop_exit_witness:
  "Call_StartDispatcher \<in> set [Call_StartDispatcher, Call_RunAsync (Callback 1 S_OK) 0, Dispatcher_event LoopThread_step] \<and>
   GameLoopStopped (m_client (Destroy (thread_run
      [Call_StartDispatcher, Call_RunAsync (Callback 1 S_OK) 0, Dispatcher_event LoopThread_step]
      (CreateGameLoopThread (\<lambda>a. None) \<lparr>GameLoopStarting = 0, GameLoopStopped = 0\<rparr>)))) = 1 \<and>
   m_trace (Destroy (thread_run
      [Call_StartDispatcher, Call_RunAsync (Callback 1 S_OK) 0, Dispatcher_event LoopThread_step]
      (CreateGameLoopThread (\<lambda>a. None) \<lparr>GameLoopStarting = 0, GameLoopStopped = 0\<rparr>))) =
     [Loop_entered, Handler_invoked (Make (Callback 1 S_OK)), Loop_returned,
      GameLoopStopped_notified] \<and>
   loop (m_system (Destroy (thread_run
      [Call_StartDispatcher, Call_RunAsync (Callback 1 S_OK) 0, Dispatcher_event LoopThread_step]
      (CreateGameLoopThread (\<lambda>a. None) \<lparr>GameLoopStarting = 0, GameLoopStopped = 0\<rparr>)))) = Returned"
proof -
  have t: "m_trace (Destroy (thread_run
      [Call_StartDispatcher, Call_RunAsync (Callback 1 S_OK) 0, Dispatcher_event LoopThread_step]
      (CreateGameLoopThread (\<lambda>a. None) \<lparr>GameLoopStarting = 0, GameLoopStopped = 0\<rparr>))) =
     [Loop_entered, Handler_invoked (Make (Callback 1 S_OK)), Loop_returned,
      GameLoopStopped_notified]"
    by (simp add: eval_defs)
  show ?thesis
    using t OnGameLoopStopped_once_after_loop_exit
      [of "[Call_StartDispatcher, Call_RunAsync (Callback 1 S_OK) 0, Dispatcher_event LoopThread_step]"
        "\<lambda>a. None" "\<lparr>GameLoopStarting = 0, GameLoopStopped = 0\<rparr>"]
    by simp
qed

section \<open>Work enqueued after StopDispatcher\<close>

lemma thread_enqueued_append: "thread_enqueued (xs @ ys) = thread_enqueued xs @ thread_enqueued ys"
  by (induction xs rule: thread_enqueued.induct) simp_all

lemma accounted_thread_step:
  "accounted (m_system (thread_step c t)) =
     accounted (m_system t) @ map snd (thread_enqueued [c])"
proof (cases c)
  case Call_StartDispatcher
  then show ?thesis
    using accounted_step [of LoopThread_step "m_system t"]
    by (simp add: StartDispatcher_simps del: step.simps)
next
  case Call_StopDispatcher
  then show ?thesis
    using accounted_run [of "wait_for_exit_steps (step Call_EnqueueEventLoopExit (m_system t))"
        "step Call_EnqueueEventLoopExit (m_system t)"]
      accounted_step [of Call_EnqueueEventLoopExit "m_system t"]
    by (simp add: StopDispatcher_simps wait_for_exit_def wait_for_exit_steps_def
        enqueued_replicate del: replicate.simps step.simps)
next
  case (Call_RunAsync handler result)
  then show ?thesis
    using accounted_step [of "Call_TryEnqueueWithPriority DispatcherQueuePriority_Low handler result" "m_system t"]
    by (simp add: RunAsync_simps del: step.simps)
next
  case (Dispatcher_event ev)
  have "is_loop_event ev \<Longrightarrow> enqueued [ev] = []" by (cases ev) simp_all
  with Dispatcher_event show ?thesis
    using accounted_step [of ev "m_system t"]
    by (auto simp: event_simps simp del: step.simps thread_step.simps)
qed

lemma accounted_thread_run:
  "accounted (m_system (thread_run cs t)) = accounted (m_system t) @ map snd (thread_enqueued cs)"
proof (induction cs arbitrary: t)
  case Nil
  show ?case by (simp add: thread_run_Nil)
next
  case (Cons c cs)
  have "thread_enqueued (c # cs) = thread_enqueued [c] @ thread_enqueued cs"
    using thread_enqueued_append [of "[c]" cs] by simp
  then show ?case
    by (simp add: thread_run_Cons Cons.IH accounted_thread_step del: thread_step.simps)
qed

lemma stopped_step:
  "m_phase t = Stopped \<Longrightarrow>
   m_phase (thread_step c t) = Stopped \<and>
   invoked (m_system (thread_step c t)) = invoked (m_system t)"
proof (cases c)
  case (Dispatcher_event ev)
  assume "m_phase t = Stopped"
  with Dispatcher_event show ?thesis
    using caller_invoked [of ev "m_system t"]
    by (auto simp: event_simps simp del: step.simps thread_step.simps)
next
  case (Call_RunAsync handler result)
  assume "m_phase t = Stopped"
  with Call_RunAsync show ?thesis
    using caller_invoked [of "Call_TryEnqueueWithPriority DispatcherQueuePriority_Low handler result" "m_system t"]
    by (simp add: RunAsync_simps del: step.simps)
qed (simp_all add: thread_simps)

lemma stopped_run:
  "m_phase t = Stopped \<Longrightarrow>
   m_phase (thread_run cs t) = Stopped \<and>
   invoked (m_system (thread_run cs t)) = invoked (m_system t)"
proof (induction cs arbitrary: t)
  case Nil
  then show ?case by (simp add: thread_run_Nil)
next
  case (Cons c cs)
  from stopped_step [OF Cons.prems, of c] Cons.IH [of "thread_step c t"]
  show ?case by (simp add: thread_run_Cons del: thread_step.simps)
qed

text \<open>
  C5: for a game loop thread whose dispatcher has been started, once \<open>StopDispatcher\<close>
  has been called no handler enqueued afterwards is ever executed, whether it is
  enqueued through \<open>RunAsync\<close> or on the dispatcher directly, and whatever happens
  later: when \<open>StopDispatcher\<close> returns the event loop has exited, nothing is invoked
  from then on, and what has been invoked is an initial part of what was enqueued before
  the call. (The thread calls \<open>RunEventLoop\<close> once: the spec's state machine does not
  go back from Stopped.)
\<close>

theorem handlers_enqueued_after_StopDispatcher_never_invoked:
  assumes "Call_StartDispatcher \<in> set cs1"
  shows "loop (m_system (thread_run (cs1 @ [Call_StopDispatcher])
            (CreateGameLoopThread mem client))) = Returned \<and>
         invoked (m_system (thread_run (cs1 @ Call_StopDispatcher # cs2)
            (CreateGameLoopThread mem client))) =
           invoked (m_system (thread_run (cs1 @ [Call_StopDispatcher])
            (CreateGameLoopThread mem client))) \<and>
         prefix (invoked (m_system (thread_run (cs1 @ Call_StopDispatcher # cs2)
            (CreateGameLoopThread mem client))))
           (map snd (thread_enqueued cs1))"
proof -
  let ?T = "CreateGameLoopThread mem client"
  let ?t = "thread_run cs1 ?T"
  let ?t1 = "thread_run (cs1 @ [Call_StopDispatcher]) ?T"
  let ?t2 = "thread_run (cs1 @ Call_StopDispatcher # cs2) ?T"
  have e1: "?t1 = StopDispatcher ?t"
    by (simp add: thread_run_append thread_run_Cons thread_run_Nil)
  have e2: "?t2 = thread_run cs2 ?t1"
    by (simp add: thread_run_append thread_run_Cons thread_run_Nil)
  have "m_phase ?t \<noteq> Constructed" by (rule started_after_Start [OF assms])
  then have p: "m_phase ?t1 = Stopped"
    unfolding e1 by (cases "m_phase ?t") (simp_all add: StopDispatcher_simps)
  have "thread_inv ?t1" by (rule thread_inv_run [OF thread_inv_Create])
  with p have l: "loop (m_system ?t1) = Returned" by (simp add: thread_inv_def)
  have v: "invoked (m_system ?t2) = invoked (m_system ?t1)"
    unfolding e2 using stopped_run [OF p, of cs2] by simp
  have "accounted (m_system ?t1) = map snd (thread_enqueued cs1)"
    using accounted_thread_run [of "cs1 @ [Call_StopDispatcher]" ?T]
    by (simp add: thread_enqueued_append CreateGameLoopThread_def initial_accounted)
  then have "map snd (thread_enqueued cs1) = invoked (m_system ?t1) @
      (in_flight (loop (m_system ?t1)) @ m_pendingActions (dispatcher (m_system ?t1)))"
    by (simp add: accounted_def)
  then have "prefix (invoked (m_system ?t1)) (map snd (thread_enqueued cs1))"
    by (rule prefixI)
  with l v show ?thesis by simp
qed

theorem handlers_enqueued_after_StopDispatcher_never_invoked_witness:
  "Call_StartDispatcher \<in> set [Call_StartDispatcher] \<and>
   loop (m_system (thread_run ([Call_StartDispatcher] @ [Call_StopDispatcher])
      (CreateGameLoopThread (\<lambda>a. None) \<lparr>GameLoopStarting = 0, GameLoopStopped = 0\<rparr>))) = Returned \<and>
   invoked (m_system (thread_run ([Call_StartDispatcher] @ Call_StopDispatcher # [Dispatcher_event
          (Call_TryEnqueueWithPriority DispatcherQueuePriority_Normal (Callback 1 S_OK) 0),
        Call_RunAsync (Callback 2 S_OK) 0,
        Dispatcher_event LoopThread_step, Dispatcher_event LoopThread_step])
      (CreateGameLoopThread (\<lambda>a. None) \<lparr>GameLoopStarting = 0, GameLoopStopped = 0\<rparr>))) = [] \<and>
   m_pendingActions (dispatcher (m_system (thread_run
      ([Call_StartDispatcher] @ Call_StopDispatcher # [Dispatcher_event
          (Call_TryEnqueueWithPriority DispatcherQueuePriority_Normal (Callback 1 S_OK) 0),
        Call_RunAsync (Callback 2 S_OK) 0,
        Dispatcher_event LoopThread_step, Dispatcher_event LoopThread_step])
      (CreateGameLoopThread (\<lambda>a. None) \<lparr>GameLoopStarting = 0, GameLoopStopped = 0\<rparr>)))) = [Make (Callback 1 S_OK), Make (Callback 2 S_OK)]"
proof -
  have h: "Call_StartDispatcher \<in> set [Call_StartDispatcher]" by simp
  have v: "invoked (m_system (thread_run ([Call_StartDispatcher] @ [Call_StopDispatcher])
      (CreateGameLoopThread (\<lambda>a. None) \<lparr>GameLoopStarting = 0, GameLoopStopped = 0\<rparr>))) = []"
    by (simp add: eval_defs)
  have q: "m_pendingActions (dispatcher (m_system (thread_run
      ([Call_StartDispatcher] @ Call_StopDispatcher # [Dispatcher_event
          (Call_TryEnqueueWithPriority DispatcherQueuePriority_Normal (Callback 1 S_OK) 0),
        Call_RunAsync (Callback 2 S_OK) 0,
        Dispatcher_event LoopThread_step, Dispatcher_event LoopThread_step])
      (CreateGameLoopThread (\<lambda>a. None) \<lparr>GameLoopStarting = 0, GameLoopStopped = 0\<rparr>)))) = [Make (Callback 1 S_OK), Make (Callback 2 S_OK)]"
    by (simp add: eval_defs)
  show ?thesis
    using h v q handlers_enqueued_after_StopDispatcher_never_invoked
      [OF h, of "\<lambda>a. None" "\<lparr>GameLoopStarting = 0, GameLoopStopped = 0\<rparr>" "[Dispatcher_event
          (Call_TryEnqueueWithPriority DispatcherQueuePriority_Normal (Callback 1 S_OK) 0),
        Call_RunAsync (Callback 2 S_OK) 0,
        Dispatcher_event LoopThread_step, Dispatcher_event LoopThread_step]"]
    by simp
qed

end
